theory Spec2Isabelle
  imports Main
begin

section \<open>Strings\<close>

text \<open>
  A JavaScript string is modelled as a \<^typ>\<open>string\<close>: a list of code units below 256
  (the Latin-1 range of UTF-16). Within that range the whitespace removed by
  \<^verbatim>\<open>String.prototype.trim\<close> is TAB, LF, VT, FF, CR, SPACE and NBSP, and the line
  terminators that the regular expression atom \<^verbatim>\<open>.\<close> refuses are LF and CR.
\<close>

definition is_sptab :: "char \<Rightarrow> bool" where
  "is_sptab c = (c = CHR '' '' \<or> c = CHR 0x09)"

definition is_ws :: "char \<Rightarrow> bool" where
  "is_ws c = (c = CHR 0x09 \<or> c = CHR 0x0A \<or> c = CHR 0x0B \<or> c = CHR 0x0C \<or> c = CHR 0x0D
      \<or> c = CHR '' '' \<or> c = CHR 0xA0)"

definition is_lineterm :: "char \<Rightarrow> bool" where
  "is_lineterm c = (c = CHR 0x0A \<or> c = CHR 0x0D)"

definition trimStart :: "string \<Rightarrow> string" where
  "trimStart s = dropWhile is_ws s"

definition trimEnd :: "string \<Rightarrow> string" where
  "trimEnd s = rev (dropWhile is_ws (rev s))"

definition trim :: "string \<Rightarrow> string" where
  "trim s = trimEnd (trimStart s)"

text \<open>\<^verbatim>\<open>s.split(c)\<close> for a one-character separator: never empty, \<^verbatim>\<open>''.split(c)\<close> is \<^verbatim>\<open>['']\<close>.\<close>

fun split_on :: "char \<Rightarrow> string \<Rightarrow> string list" where
  "split_on c [] = [[]]"
| "split_on c (x # xs) =
     (if x = c then [] # split_on c xs
      else (case split_on c xs of [] \<Rightarrow> [[x]] | w # ws \<Rightarrow> (x # w) # ws))"

definition lower_char :: "char \<Rightarrow> char" where
  "lower_char c =
     (let n = (of_char c :: nat)
      in if (65 \<le> n \<and> n \<le> 90) \<or> (192 \<le> n \<and> n \<le> 222 \<and> n \<noteq> 215)
         then char_of (n + 32) else c)"

definition toLowerCase :: "string \<Rightarrow> string" where
  "toLowerCase s = map lower_char s"

definition startsWith :: "string \<Rightarrow> string \<Rightarrow> bool" where
  "startsWith s p = (take (length p) s = p)"

definition endsWith :: "string \<Rightarrow> string \<Rightarrow> bool" where
  "endsWith s p = (length p \<le> length s \<and> drop (length s - length p) s = p)"

text \<open>\<^verbatim>\<open>s.includes(p)\<close>: \<open>p\<close> occurs in \<open>s\<close> as a contiguous substring.\<close>

fun str_includes :: "string \<Rightarrow> string \<Rightarrow> bool" where
  "str_includes [] p = (p = [])"
| "str_includes (x # xs) p = (startsWith (x # xs) p \<or> str_includes xs p)"

text \<open>
  The errors that the code can raise: \<^verbatim>\<open>new Error(message)\<close>, the RangeError of
  \<^verbatim>\<open>s.repeat(n)\<close> with a negative count, and the error of a file system call on the
  given path.
\<close>

datatype error =
    Error string
  | RangeError
  | IOError string

definition js_repeat :: "string \<Rightarrow> int \<Rightarrow> error + string" where
  "js_repeat s n = (if n < 0 then Inl RangeError else Inr (concat (replicate (nat n) s)))"

text \<open>Truthiness of an optional string: \<^verbatim>\<open>undefined\<close>, \<^verbatim>\<open>null\<close> and \<^verbatim>\<open>''\<close> are falsy.\<close>

definition truthy :: "string option \<Rightarrow> bool" where
  "truthy s = (case s of None \<Rightarrow> False | Some x \<Rightarrow> x \<noteq> [])"

section \<open>The regular expressions of the constructor\<close>

text \<open>
  Each regular expression of \<^verbatim>\<open>a2conf.ts\<close> is written out as the list function that
  computes its leftmost match.

  \<^verbatim>\<open>/(#.*)$/\<close>: the first \<^verbatim>\<open>#\<close> after which no line terminator occurs; the match runs to
  the end of the string.
\<close>

fun match_suffix :: "string \<Rightarrow> string option" where
  "match_suffix [] = None"
| "match_suffix (c # cs) =
     (if c = CHR ''#'' \<and> \<not> list_ex is_lineterm cs then Some (c # cs) else match_suffix cs)"

text \<open>\<^verbatim>\<open>/^[ \t]*<(?!\/)/\<close>: blanks, then \<^verbatim>\<open><\<close>, not followed by \<^verbatim>\<open>/\<close>.\<close>

definition match_open :: "string \<Rightarrow> bool" where
  "match_open r =
     (case dropWhile is_sptab r of
        [] \<Rightarrow> False
      | c # cs \<Rightarrow> c = CHR ''<'' \<and> (case cs of [] \<Rightarrow> True | d # _ \<Rightarrow> d \<noteq> CHR ''/''))"

text \<open>\<^verbatim>\<open>/[ \t]*<\//\<close> is not anchored: it matches wherever \<^verbatim>\<open></\<close> occurs.\<close>

definition match_close :: "string \<Rightarrow> bool" where
  "match_close r = str_includes r ''</''"

definition is_tagchar :: "char \<Rightarrow> bool" where
  "is_tagchar c = (c \<noteq> CHR '' '' \<and> c \<noteq> CHR ''>'')"

text \<open>
  \<^verbatim>\<open>/[ \t]*<([^ >]+)([^>]*)/\<close>, not anchored: the match uses the first \<^verbatim>\<open><\<close> that is
  followed by a character other than space and \<^verbatim>\<open>></\<close>; group 1 is the longest run of
  such characters, group 2 everything after it up to the next \<^verbatim>\<open>>\<close>.
\<close>

fun match_open_tag :: "string \<Rightarrow> (string \<times> string) option" where
  "match_open_tag [] = None"
| "match_open_tag (c # cs) =
     (if c = CHR ''<'' \<and> (case cs of [] \<Rightarrow> False | d # _ \<Rightarrow> is_tagchar d)
      then Some (takeWhile is_tagchar cs,
                 takeWhile (\<lambda>x. x \<noteq> CHR ''>'') (dropWhile is_tagchar cs))
      else match_open_tag cs)"

text \<open>
  \<^verbatim>\<open>/[ \t]*<(\/[^ >]+)([^>]*)/\<close>, not anchored: the first \<^verbatim>\<open></\<close> followed by a character
  other than space and \<^verbatim>\<open>></\<close>; group 1 starts with the slash.
\<close>

fun match_close_tag :: "string \<Rightarrow> (string \<times> string) option" where
  "match_close_tag [] = None"
| "match_close_tag [c] = None"
| "match_close_tag (c # d # cs) =
     (if c = CHR ''<'' \<and> d = CHR ''/'' \<and> (case cs of [] \<Rightarrow> False | e # _ \<Rightarrow> is_tagchar e)
      then Some (d # takeWhile is_tagchar cs,
                 takeWhile (\<lambda>x. x \<noteq> CHR ''>'') (dropWhile is_tagchar cs))
      else match_close_tag (d # cs))"

text \<open>
  \<^verbatim>\<open>/[ \t]*([^ \t]+)[ \t]*([^#]*)/\<close>, not anchored: it fails only on a string of blanks;
  otherwise it matches at the start, group 1 the first blank-delimited token, group 2
  the rest after the blanks, up to the next \<^verbatim>\<open>#\<close>.
\<close>

definition match_cmd :: "string \<Rightarrow> (string \<times> string) option" where
  "match_cmd s =
     (let s1 = dropWhile is_sptab s
      in if s1 = [] then None
         else Some (takeWhile (\<lambda>c. \<not> is_sptab c) s1,
                    takeWhile (\<lambda>c. c \<noteq> CHR ''#'')
                      (dropWhile is_sptab (dropWhile (\<lambda>c. \<not> is_sptab c) s1))))"

section \<open>Nodes\<close>

text \<open>
  The fields of a \<^verbatim>\<open>Node\<close> that hold plain data. \<^verbatim>\<open>includes\<close> and \<^verbatim>\<open>section\<close> are
  written \<open>includes_flag\<close> and \<open>section_name\<close>. The field \<^verbatim>\<open>prefix\<close> is set to four
  spaces by the constructor and never assigned again: it is the constant \<open>prefix_unit\<close>.
\<close>

record fields =
  raw :: "string option"
  name :: string
  path :: "string option"
  line :: "nat option"
  includes_flag :: bool
  section_name :: "string option"
  cmd :: "string option"
  args :: string
  suffix :: "string option"

definition prefix_unit :: string where
  "prefix_unit = replicate 4 CHR '' ''"

text \<open>The constructor's argument; \<^verbatim>\<open>parent\<close> is a reference and is passed separately.\<close>

record NodeProps =
  props_raw :: "string option"
  props_name :: "string option"
  props_path :: "string option"
  props_line :: "nat option"
  props_includes :: bool

definition default_props :: NodeProps where
  "default_props = \<lparr>props_raw = None, props_name = None, props_path = None,
     props_line = None, props_includes = True\<rparr>"

definition isOpen :: "string option \<Rightarrow> bool" where
  "isOpen r = (case r of None \<Rightarrow> False | Some x \<Rightarrow> x \<noteq> [] \<and> match_open x)"

definition isClose :: "string option \<Rightarrow> bool" where
  "isClose r = (case r of None \<Rightarrow> False | Some x \<Rightarrow> x \<noteq> [] \<and> match_close x)"

text \<open>The name guessed from the raw line: \<^verbatim>\<open>raw.trim().split(' ')[0]\<close>, closed with \<^verbatim>\<open>></\<close>.\<close>

definition guess_name :: "string \<Rightarrow> string" where
  "guess_name r =
     (let n = hd (split_on CHR '' '' (trim r))
      in if startsWith n ''<'' \<and> \<not> endsWith n ''>'' then n @ ''>'' else n)"

text \<open>
  The three branches of the constructor that read \<open>section\<close>, \<open>cmd\<close> and \<open>args\<close>
  from a non-empty raw line; the result is \<open>(section, cmd, args)\<close>.
\<close>

definition parse_raw :: "string \<Rightarrow> error + (string option \<times> string option \<times> string)" where
  "parse_raw r =
     (if isOpen (Some r) then
        (case match_open_tag r of
           Some (s, a) \<Rightarrow> Inr (Some s, None, trim a)
         | None \<Rightarrow> Inr (None, None, []))
      else if isClose (Some r) then
        (case match_close_tag r of
           Some (s, a) \<Rightarrow> Inr (Some s, None, [])
         | None \<Rightarrow> Inr (None, None, []))
      else
        (let cmdline = trim (hd (split_on CHR ''#'' r))
         in if cmdline = [] then Inr (None, None, [])
            else (case match_cmd cmdline of
                    None \<Rightarrow> Inl (Error (''Cannot parse: '' @ cmdline))
                  | Some (c, a) \<Rightarrow> Inr (None, Some c, trim a))))"

definition new_fields :: "NodeProps \<Rightarrow> error + fields" where
  "new_fields p =
     (let sfx = (if truthy (props_raw p)
                 then (case match_suffix (the (props_raw p)) of
                         Some m \<Rightarrow> Some m | None \<Rightarrow> Some [])
                 else None);
          nm = (if truthy (props_name p) then the (props_name p)
                else if truthy (props_raw p) then guess_name (the (props_raw p))
                else ''#root'')
      in case (if truthy (props_raw p) then parse_raw (the (props_raw p))
               else Inr (None, None, [])) of
           Inl e \<Rightarrow> Inl e
         | Inr (sec, c, a) \<Rightarrow>
             Inr \<lparr>raw = props_raw p, name = nm, path = props_path p, line = props_line p,
                  includes_flag = props_includes p, section_name = sec, cmd = c,
                  args = a, suffix = sfx\<rparr>)"

section \<open>The document tree\<close>

text \<open>
  The tree that the parser builds and the serializer prints: a node owns the ordered
  list of its children. The parser creates every node it adds and follows \<^verbatim>\<open>parent\<close>
  links only from nodes it created itself, so the tree is a value here and the chain of
  parents is kept by the parser state below. (The mutation interface, which depends on
  object identity, is modelled on a store of objects in a later section.)
\<close>

datatype node = Node (fields_of: fields) (content: "node list")

definition new_Node :: "NodeProps \<Rightarrow> error + node" where
  "new_Node p = (case new_fields p of Inl e \<Rightarrow> Inl e | Inr f \<Rightarrow> Inr (Node f []))"

definition add_child :: "node \<Rightarrow> node \<Rightarrow> node" where
  "add_child p c = Node (fields_of p) (content p @ [c])"

section \<open>The serializer\<close>

text \<open>
  \<^verbatim>\<open>dump\<close> tests \<^verbatim>\<open>this.children.length > 0\<close>. \<^verbatim>\<open>children\<close> is the method
  \<^verbatim>\<open>children(name?, { recursive } = { recursive: false })\<close>, and the \<^verbatim>\<open>length\<close> of a
  function is the number of its parameters before the first one with a default value.
  The pieces pushed to \<^verbatim>\<open>output\<close> are joined without a separator, so the result is
  their concatenation. (Limits of the engine, such as the number of arguments that a
  spread may pass, are not modelled.)
\<close>

definition children_length :: nat where
  "children_length = 1"

fun dump :: "node \<Rightarrow> int \<Rightarrow> error + string"
  and dump_all :: "node list \<Rightarrow> int \<Rightarrow> error + string" where
  "dump (Node f cs) depth =
     (let paddedSuffix = (if truthy (suffix f) then '' '' @ the (suffix f) else [])
      in if truthy (cmd f) then
           (case js_repeat prefix_unit depth of
              Inl e \<Rightarrow> Inl e
            | Inr ind \<Rightarrow> Inr (ind @ the (cmd f) @ '' '' @ args f @ paddedSuffix @ [CHR 0x0A]))
         else if truthy (section_name f) then
           (let lineDepth = (if startsWith (the (section_name f)) ''/'' then depth - 1 else depth)
            in case js_repeat prefix_unit lineDepth of
                 Inl e \<Rightarrow> Inl e
               | Inr ind \<Rightarrow>
                   (let opening =
                          (if args f \<noteq> []
                           then ind @ ''<'' @ the (section_name f) @ '' '' @ args f @ ''>''
                                  @ paddedSuffix @ [CHR 0x0A]
                           else ind @ ''<'' @ the (section_name f) @ ''>''
                                  @ paddedSuffix @ [CHR 0x0A])
                    in if children_length > 0 then
                         (case dump_all cs (depth + 1) of
                            Inl e \<Rightarrow> Inl e
                          | Inr body \<Rightarrow>
                              Inr (opening @ body @ ind @ ''</'' @ the (section_name f) @ ''>''
                                     @ [CHR 0x0A]))
                       else Inr opening))
         else
           (case (if truthy (suffix f) then
                    (case js_repeat prefix_unit depth of
                       Inl e \<Rightarrow> Inl e
                     | Inr ind \<Rightarrow> Inr (ind @ the (suffix f) @ [CHR 0x0A]))
                  else if truthy (raw f) then Inr [CHR 0x0A]
                  else Inr []) of
              Inl e \<Rightarrow> Inl e
            | Inr own \<Rightarrow>
                if children_length > 0 then
                  (case dump_all cs depth of Inl e \<Rightarrow> Inl e | Inr body \<Rightarrow> Inr (own @ body))
                else Inr own))"
| "dump_all [] depth = Inr []"
| "dump_all (n # ns) depth =
     (case dump n depth of
        Inl e \<Rightarrow> Inl e
      | Inr s \<Rightarrow> (case dump_all ns depth of Inl e \<Rightarrow> Inl e | Inr t \<Rightarrow> Inr (s @ t)))"

section \<open>The parser\<close>

text \<open>
  The loop of \<^verbatim>\<open>readText\<close> and \<^verbatim>\<open>readFile\<close> keeps a variable \<^verbatim>\<open>parent\<close>. Its value is
  one of: the root (\<open>Attached []\<close>); a section that was opened below the root and is not
  closed yet (\<open>Attached\<close> with the open sections, innermost first); \<^verbatim>\<open>undefined\<close>, after a
  close line was read at the root (\<open>Detached []\<close>); or a node opened while \<^verbatim>\<open>parent\<close> was
  undefined, which hangs below no root (\<open>Detached\<close> with that chain).

  A section is added to its parent when it is opened; here it is kept on the chain and
  its place in the parent is implicit: the innermost section is the latest child of the
  next one, and the outermost section stands in the root's content after the nodes of
  \<open>before_open\<close> and before those of \<open>after_open\<close> (which only \<^verbatim>\<open>extend\<close> fills, while a
  section is open below the root). The content of the root is \<open>root_content\<close> in
  every state. \<open>console\<close> collects the lines given to \<^verbatim>\<open>console.warn\<close>.
\<close>

datatype cursor = Attached "node list" | Detached "node list"

record pstate =
  before_open :: "node list"
  after_open :: "node list"
  cur :: cursor
  console :: "string list"

definition init_state :: "string list \<Rightarrow> pstate" where
  "init_state con = \<lparr>before_open = [], after_open = [], cur = Attached [], console = con\<rparr>"

text \<open>An open chain folded into its outermost section.\<close>

fun collapse :: "node \<Rightarrow> node list \<Rightarrow> node" where
  "collapse s [] = s"
| "collapse s (p # ps) = collapse (add_child p s) ps"

definition root_content :: "pstate \<Rightarrow> node list" where
  "root_content st =
     before_open st
     @ (case cur st of Attached (s # ss) \<Rightarrow> [collapse s ss] | _ \<Rightarrow> [])
     @ after_open st"

text \<open>\<^verbatim>\<open>parent?.add(node)\<close>: nothing happens when \<^verbatim>\<open>parent\<close> is undefined.\<close>

definition add_node :: "node \<Rightarrow> pstate \<Rightarrow> pstate" where
  "add_node n st =
     (case cur st of
        Attached [] \<Rightarrow>
          st\<lparr>before_open := before_open st @ after_open st @ [n], after_open := []\<rparr>
      | Attached (s # ss) \<Rightarrow> st\<lparr>cur := Attached (add_child s n # ss)\<rparr>
      | Detached [] \<Rightarrow> st
      | Detached (s # ss) \<Rightarrow> st\<lparr>cur := Detached (add_child s n # ss)\<rparr>)"

text \<open>\<^verbatim>\<open>parent?.add(node); parent = node\<close>.\<close>

definition open_section :: "node \<Rightarrow> pstate \<Rightarrow> pstate" where
  "open_section n st =
     (case cur st of
        Attached ss \<Rightarrow> st\<lparr>cur := Attached (n # ss)\<rparr>
      | Detached ss \<Rightarrow> st\<lparr>cur := Detached (n # ss)\<rparr>)"

text \<open>
  \<^verbatim>\<open>parent = parent?.parent\<close>. The root's parent is undefined, and so is the parent of a
  node that was created while \<^verbatim>\<open>parent\<close> was undefined.
\<close>

definition move_up :: "pstate \<Rightarrow> pstate" where
  "move_up st =
     (case cur st of
        Attached [] \<Rightarrow> st\<lparr>cur := Detached []\<rparr>
      | Attached [s] \<Rightarrow>
          st\<lparr>before_open := before_open st @ [s] @ after_open st, after_open := [],
             cur := Attached []\<rparr>
      | Attached (s # p # ss) \<Rightarrow> st\<lparr>cur := Attached (add_child p s # ss)\<rparr>
      | Detached [] \<Rightarrow> st
      | Detached [s] \<Rightarrow> st\<lparr>cur := Detached []\<rparr>
      | Detached (s # p # ss) \<Rightarrow> st\<lparr>cur := Detached (add_child p s # ss)\<rparr>)"

text \<open>The three-way branch on the new node.\<close>

definition place :: "node \<Rightarrow> pstate \<Rightarrow> pstate" where
  "place n st =
     (if isOpen (raw (fields_of n)) then open_section n st
      else if isClose (raw (fields_of n)) then move_up st
      else add_node n st)"

text \<open>\<^verbatim>\<open>this.extend(subNode)\<close>, where \<^verbatim>\<open>this\<close> is the root of the running parse.\<close>

definition extend_root :: "node list \<Rightarrow> pstate \<Rightarrow> pstate" where
  "extend_root ns st =
     (case cur st of
        Attached (s # ss) \<Rightarrow> st\<lparr>after_open := after_open st @ ns\<rparr>
      | _ \<Rightarrow> st\<lparr>before_open := before_open st @ after_open st @ ns, after_open := []\<rparr>)"

subsection \<open>The file system\<close>

text \<open>
  The collaborators of the parser are parameters: the files (a path holds the lines
  that \<^verbatim>\<open>readline\<close> yields, or is a directory, or does not exist), \<^verbatim>\<open>glob.sync\<close>,
  \<^verbatim>\<open>path.join\<close> and \<^verbatim>\<open>path.dirname\<close>.
\<close>

datatype entry = File "string list" | Dir

record env =
  fs :: "string \<Rightarrow> entry option"
  glob_sync :: "string \<Rightarrow> string list"
  path_join :: "string list \<Rightarrow> string"
  path_dirname :: "string \<Rightarrow> string"

definition existsSync :: "env \<Rightarrow> string \<Rightarrow> bool" where
  "existsSync e p = (fs e p \<noteq> None)"

text \<open>\<^verbatim>\<open>lstatSync(p).isDirectory()\<close>: \<^verbatim>\<open>lstatSync\<close> throws when the path does not exist.\<close>

definition lstat_isDirectory :: "env \<Rightarrow> string \<Rightarrow> error + bool" where
  "lstat_isDirectory e p =
     (case fs e p of
        None \<Rightarrow> Inl (IOError p)
      | Some Dir \<Rightarrow> Inr True
      | Some (File ls) \<Rightarrow> Inr False)"

text \<open>The lines of \<^verbatim>\<open>readline\<close> over \<^verbatim>\<open>createReadStream(p)\<close>; the stream fails at once.\<close>

definition read_stream :: "env \<Rightarrow> string \<Rightarrow> error + string list" where
  "read_stream e p =
     (case fs e p of
        Some (File ls) \<Rightarrow> Inr ls
      | _ \<Rightarrow> Inl (IOError p))"

subsection \<open>Reading lines\<close>

text \<open>
  A call may run out of fuel (the model's bound on the depth of nested includes), throw
  (the console as it stood is kept) or return.
\<close>

datatype 'a result = OutOfFuel | Threw error "string list" | Done 'a

definition is_include :: "node \<Rightarrow> bool" where
  "is_include n =
     (toLowerCase (name (fields_of n)) = ''include''
      \<or> toLowerCase (name (fields_of n)) = ''includeoptional'')"

text \<open>The paths that an include directive of \<^verbatim>\<open>readText\<close> resolves to.\<close>

definition text_matches :: "env \<Rightarrow> string \<Rightarrow> error + string list" where
  "text_matches e a =
     (let fullpath = path_join e [a]
      in if existsSync e fullpath then
           (case lstat_isDirectory e fullpath of
              Inl err \<Rightarrow> Inl err
            | Inr d \<Rightarrow>
                Inr (glob_sync e (path_join e
                       [if d then path_join e [fullpath, ''*''] else fullpath])))
         else Inr (glob_sync e (path_join e [fullpath])))"

text \<open>The same for \<^verbatim>\<open>readFile\<close>: relative to the file, and without the test of existence.\<close>

definition file_matches :: "env \<Rightarrow> string \<Rightarrow> string \<Rightarrow> error + string list" where
  "file_matches e filename a =
     (let basedir = path_dirname e filename;
          fullpath = path_join e [basedir, a]
      in case lstat_isDirectory e fullpath of
           Inl err \<Rightarrow> Inl err
         | Inr d \<Rightarrow>
             Inr (glob_sync e (path_join e
                    [if d then path_join e [fullpath, ''*''] else fullpath])))"

text \<open>
  The loop over the matched paths. \<open>rd\<close> reads one file into a fresh node, from the
  console as it stands; a throw is caught and becomes a warning.
\<close>

fun include_files :: "(string \<Rightarrow> string list \<Rightarrow> pstate result) \<Rightarrow> string \<Rightarrow> string list
    \<Rightarrow> pstate \<Rightarrow> pstate result" where
  "include_files rd l [] st = Done st"
| "include_files rd l (p # ps) st =
     (case rd p (console st) of
        OutOfFuel \<Rightarrow> OutOfFuel
      | Threw e con \<Rightarrow>
          include_files rd l ps
            (st\<lparr>console := con @ [''WARN failed to import '' @ p @ '' ('' @ l @ '')'']\<rparr>)
      | Done sub \<Rightarrow>
          include_files rd l ps (extend_root (root_content sub) (st\<lparr>console := console sub\<rparr>)))"

text \<open>
  The body shared by the loops of \<^verbatim>\<open>readText\<close> and \<^verbatim>\<open>readFile\<close>, which differ in the
  \<open>path\<close> given to the new node (\<open>pth\<close>) and in how an include is resolved (\<open>matches\<close>).
  \<open>i\<close> is \<^verbatim>\<open>lineIndex\<close> before the line is read, \<open>inc\<close> is \<^verbatim>\<open>this.includes\<close>.
\<close>

fun read_lines :: "(string \<Rightarrow> string list \<Rightarrow> pstate result) \<Rightarrow> (string \<Rightarrow> error + string list)
    \<Rightarrow> string option \<Rightarrow> bool \<Rightarrow> string list \<Rightarrow> nat \<Rightarrow> pstate \<Rightarrow> pstate result" where
  "read_lines rd matches pth inc [] i st = Done st"
| "read_lines rd matches pth inc (ln # lns) i st =
     (let l = trim ln
      in if l = [] then read_lines rd matches pth inc lns (i + 1) st
         else
           (case new_Node \<lparr>props_raw = Some l, props_name = None, props_path = pth,
                            props_line = Some (i + 1), props_includes = True\<rparr> of
              Inl e \<Rightarrow> Threw e (console st)
            | Inr n \<Rightarrow>
                (let st1 = place n st
                 in if inc \<and> is_include n then
                      (case matches (args (fields_of n)) of
                         Inl e \<Rightarrow> Threw e (console st1)
                       | Inr ms \<Rightarrow>
                           (case include_files rd l ms st1 of
                              OutOfFuel \<Rightarrow> OutOfFuel
                            | Threw e con \<Rightarrow> Threw e con
                            | Done st2 \<Rightarrow> read_lines rd matches pth inc lns (i + 1) st2))
                    else read_lines rd matches pth inc lns (i + 1) st1)))"

text \<open>
  \<^verbatim>\<open>readFile\<close>; the first argument bounds the depth of nested includes. A node made for
  an included file has \<^verbatim>\<open>includes\<close> at its default, true.
\<close>

primrec readFile :: "nat \<Rightarrow> env \<Rightarrow> bool \<Rightarrow> string \<Rightarrow> string list \<Rightarrow> pstate result" where
  "readFile 0 e inc filename con = OutOfFuel"
| "readFile (Suc k) e inc filename con =
     (case read_stream e filename of
        Inl err \<Rightarrow> Threw err con
      | Inr lns \<Rightarrow>
          read_lines (\<lambda>p c. readFile k e True p c) (file_matches e filename) (Some filename)
            inc lns 0 (init_state con))"

definition readText :: "nat \<Rightarrow> env \<Rightarrow> bool \<Rightarrow> string \<Rightarrow> string list \<Rightarrow> pstate result" where
  "readText k e inc txt con =
     read_lines (\<lambda>p c. readFile k e True p c) (text_matches e) None
       inc (split_on (CHR 0x0A) txt) 0 (init_state con)"

text \<open>
  \<^verbatim>\<open>fromText\<close> and \<^verbatim>\<open>fromFile\<close> return the root and, here, the console. The root is made
  from the caller's properties; \<^verbatim>\<open>readFile\<close> sets its \<^verbatim>\<open>path\<close>.
\<close>

definition fromText :: "nat \<Rightarrow> env \<Rightarrow> string \<Rightarrow> NodeProps \<Rightarrow> (node \<times> string list) result" where
  "fromText k e txt props =
     (case new_Node props of
        Inl err \<Rightarrow> Threw err []
      | Inr root \<Rightarrow>
          (case readText k e (includes_flag (fields_of root)) txt [] of
             OutOfFuel \<Rightarrow> OutOfFuel
           | Threw err con \<Rightarrow> Threw err con
           | Done st \<Rightarrow>
               Done (Node (fields_of root) (content root @ root_content st), console st)))"

definition fromFile :: "nat \<Rightarrow> env \<Rightarrow> string \<Rightarrow> NodeProps \<Rightarrow> (node \<times> string list) result" where
  "fromFile k e filename props =
     (case new_Node props of
        Inl err \<Rightarrow> Threw err []
      | Inr root \<Rightarrow>
          (case readFile k e (includes_flag (fields_of root)) filename [] of
             OutOfFuel \<Rightarrow> OutOfFuel
           | Threw err con \<Rightarrow> Threw err con
           | Done st \<Rightarrow>
               Done (Node ((fields_of root)\<lparr>path := Some filename\<rparr>)
                       (content root @ root_content st), console st)))"

section \<open>What a round trip keeps\<close>

text \<open>
  The directives and sections of a tree, in order and nested as the sections are: the
  name and the arguments of each. A node that is neither (a comment, the root) adds
  nothing of its own. The order of the tests is that of \<^verbatim>\<open>dump\<close>.
\<close>

datatype skel = SDir string string | SSec string string "skel list"

fun skel_of :: "node \<Rightarrow> skel list" and skels :: "node list \<Rightarrow> skel list" where
  "skel_of (Node f cs) =
     (if truthy (cmd f) then [SDir (the (cmd f)) (args f)]
      else if truthy (section_name f) then [SSec (the (section_name f)) (args f) (skels cs)]
      else skels cs)"
| "skels [] = []"
| "skels (n # ns) = skel_of n @ skels ns"

section \<open>Objects and identity\<close>

text \<open>
  \<^verbatim>\<open>add\<close>, \<^verbatim>\<open>insert\<close>, \<^verbatim>\<open>set\<close> and the queries work on objects: a child is a reference,
  the same object may stand in several places, and \<^verbatim>\<open>insert\<close> compares by identity. The
  store is a list of objects and a reference is an index into it; a new object is put
  at the end. An object has the data fields and three references.
\<close>

type_synonym ref = nat

record obj = fields +
  parent :: "ref option"
  content_refs :: "ref list"
  lastChild :: "ref option"

type_synonym heap = "obj list"

text \<open>\<^verbatim>\<open>new Node({raw, parent, name, path, line, includes})\<close>.\<close>

definition obj_of :: "fields \<Rightarrow> ref option \<Rightarrow> obj" where
  "obj_of f par =
     \<lparr>raw = raw f, name = name f, path = path f, line = line f,
      includes_flag = includes_flag f, section_name = section_name f,
      cmd = cmd f, args = args f, suffix = suffix f,
      parent = par, content_refs = [], lastChild = None\<rparr>"

definition new_obj :: "heap \<Rightarrow> NodeProps \<Rightarrow> ref option \<Rightarrow> error + (heap \<times> ref)" where
  "new_obj h p par =
     (case new_fields p of
        Inl e \<Rightarrow> Inl e
      | Inr f \<Rightarrow> Inr (h @ [obj_of f par], length h))"

text \<open>An argument as JavaScript passes it: a node, a string, or anything else.\<close>

datatype jsarg = ANode ref | AString string | AOther

text \<open>
  \<^verbatim>\<open>add(child)\<close>. (\<^verbatim>\<open>content\<close> is always an array, so the test \<^verbatim>\<open>!this.content\<close> is false.)
\<close>

definition add :: "heap \<Rightarrow> ref \<Rightarrow> jsarg \<Rightarrow> error + heap" where
  "add h this child =
     (case child of
        ANode c \<Rightarrow>
          Inr (h[this := (h ! this)\<lparr>content_refs := content_refs (h ! this) @ [c],
                                    lastChild := Some c\<rparr>])
      | _ \<Rightarrow> Inl (Error ''Child must be an instance of Node''))"

definition addRaw :: "heap \<Rightarrow> ref \<Rightarrow> string \<Rightarrow> error + heap" where
  "addRaw h this r =
     (case new_obj h (default_props\<lparr>props_raw := Some r\<rparr>) (Some this) of
        Inl e \<Rightarrow> Inl e
      | Inr (h1, sl) \<Rightarrow> add h1 this (ANode sl))"

text \<open>
  \<^verbatim>\<open>children(name)\<close> with \<^verbatim>\<open>recursive\<close> at its default, false, which is how \<^verbatim>\<open>set\<close>,
  \<^verbatim>\<open>first\<close> and \<^verbatim>\<open>findVHost\<close> call it.
\<close>

fun children_loop :: "heap \<Rightarrow> string option \<Rightarrow> ref list \<Rightarrow> ref list" where
  "children_loop h nm [] = []"
| "children_loop h nm (c # cs) =
     (if truthy nm then
        (if toLowerCase (name (h ! c)) = toLowerCase (the nm)
         then c # children_loop h nm cs else children_loop h nm cs)
      else c # children_loop h nm cs)"

definition children :: "heap \<Rightarrow> ref \<Rightarrow> string option \<Rightarrow> ref list" where
  "children h this nm = children_loop h nm (content_refs (h ! this))"

definition first :: "heap \<Rightarrow> ref \<Rightarrow> string \<Rightarrow> ref option" where
  "first h this nm = (case children h this (Some nm) of [] \<Rightarrow> None | c # cs \<Rightarrow> Some c)"

text \<open>
  \<^verbatim>\<open>getIndex\<close> of \<^verbatim>\<open>insert\<close>: \<^verbatim>\<open>forEach\<close> visits every child, with \<open>i\<close> its index and
  \<open>idx\<close> the result so far.
\<close>

fun getIndex_loop :: "heap \<Rightarrow> jsarg \<Rightarrow> ref list \<Rightarrow> nat \<Rightarrow> int \<Rightarrow> int" where
  "getIndex_loop h after [] i idx = idx"
| "getIndex_loop h after (c # cs) i idx =
     getIndex_loop h after cs (i + 1)
       (case after of
          ANode a \<Rightarrow> if c = a then int i + 1 else idx
        | AString s \<Rightarrow> if toLowerCase (name (h ! c)) = toLowerCase s then int i + 1 else idx
        | AOther \<Rightarrow> idx)"

definition getIndex :: "heap \<Rightarrow> ref list \<Rightarrow> jsarg \<Rightarrow> int" where
  "getIndex h cs after = getIndex_loop h after cs 0 (- 1)"

text \<open>
  \<^verbatim>\<open>insert(childNode, afterNode)\<close>. Each of the lists \<^verbatim>\<open>after\<close> and \<^verbatim>\<open>child\<close> holds its
  argument when that is a string or a node, and is empty otherwise; the result is
  \<^verbatim>\<open>childNodes[0]\<close>, undefined when there is none.
\<close>

definition insert_node :: "heap \<Rightarrow> ref \<Rightarrow> jsarg \<Rightarrow> jsarg \<Rightarrow> error + (heap \<times> ref option)" where
  "insert_node h this childNode afterNode =
     (case (case childNode of
              ANode c \<Rightarrow> Inr (h, [c])
            | AString x \<Rightarrow>
                (case new_obj h (default_props\<lparr>props_raw := Some x\<rparr>) None of
                   Inl e \<Rightarrow> Inl e
                 | Inr (h1, c) \<Rightarrow> Inr (h1, [c]))
            | AOther \<Rightarrow> Inr (h, [])) of
        Inl e \<Rightarrow> Inl e
      | Inr (h1, childNodes) \<Rightarrow>
          (let cs = content_refs (h1 ! this);
               idx = (case afterNode of AOther \<Rightarrow> - 1 | _ \<Rightarrow> getIndex h1 cs afterNode);
               cs' = (if idx > - 1 then take (nat idx) cs @ childNodes @ drop (nat idx) cs
                      else cs @ childNodes)
           in Inr (h1[this := (h1 ! this)\<lparr>content_refs := cs'\<rparr>],
                   case childNodes of [] \<Rightarrow> None | c # _ \<Rightarrow> Some c)))"

text \<open>\<^verbatim>\<open>set(name, value)\<close>.\<close>

fun set_args :: "heap \<Rightarrow> ref list \<Rightarrow> string \<Rightarrow> heap" where
  "set_args h [] v = h"
| "set_args h (a # as) v = set_args (h[a := (h ! a)\<lparr>args := v\<rparr>]) as v"

definition set_value :: "heap \<Rightarrow> ref \<Rightarrow> string \<Rightarrow> string \<Rightarrow> error + heap" where
  "set_value h this nm v =
     (let properties = children h this (Some nm)
      in if length properties = 0 then
           (case insert_node h this (AString (nm @ '' '' @ v)) AOther of
              Inl e \<Rightarrow> Inl e
            | Inr (h1, r) \<Rightarrow> Inr h1)
         else Inr (set_args h properties v))"

text \<open>\<^verbatim>\<open>findVHost(hostname, arg)\<close>, with its helper \<^verbatim>\<open>getAllHostnames\<close>.\<close>

fun alias_names :: "heap \<Rightarrow> ref list \<Rightarrow> string option list" where
  "alias_names h [] = []"
| "alias_names h (a # as) = map Some (split_on CHR '' '' (args (h ! a))) @ alias_names h as"

definition getAllHostnames :: "heap \<Rightarrow> ref \<Rightarrow> string option list" where
  "getAllHostnames h vhost =
     (let servername = (case first h vhost ''ServerName'' of
                          None \<Rightarrow> None | Some s \<Rightarrow> Some (args (h ! s)))
      in [servername] @ alias_names h (children h vhost (Some ''ServerAlias'')))"

fun findVHost_loop :: "heap \<Rightarrow> string \<Rightarrow> string option \<Rightarrow> ref list \<Rightarrow> ref option" where
  "findVHost_loop h hostname arg [] = None"
| "findVHost_loop h hostname arg (vhost # vs) =
     (if truthy arg \<and> \<not> str_includes (args (h ! vhost)) (the arg)
      then findVHost_loop h hostname arg vs
      else if List.member (getAllHostnames h vhost) (Some hostname) then Some vhost
      else findVHost_loop h hostname arg vs)"

definition findVHost :: "heap \<Rightarrow> ref \<Rightarrow> string \<Rightarrow> string option \<Rightarrow> ref option" where
  "findVHost h this hostname arg =
     findVHost_loop h hostname arg (children h this (Some ''<VirtualHost>''))"

section \<open>Notions used by the statements\<close>

subsection \<open>Insertion after a sibling\<close>

text \<open>
  What \<^verbatim>\<open>insert\<close> compares a child with: a node by identity, a string with the child's
  name, both in lower case. \<open>last_match P cs k\<close>: position \<open>k\<close> of \<open>cs\<close> is the last
  one that satisfies \<open>P\<close>.
\<close>

definition matches_after :: "heap \<Rightarrow> jsarg \<Rightarrow> ref \<Rightarrow> bool" where
  "matches_after h after c =
     (case after of
        ANode a \<Rightarrow> c = a
      | AString s \<Rightarrow> toLowerCase (name (h ! c)) = toLowerCase s
      | AOther \<Rightarrow> False)"

definition last_match :: "('a \<Rightarrow> bool) \<Rightarrow> 'a list \<Rightarrow> nat \<Rightarrow> bool" where
  "last_match P cs k = (k < length cs \<and> P (cs ! k) \<and> \<not> list_ex P (drop (Suc k) cs))"

subsection \<open>Virtual hosts\<close>

text \<open>
  A child named \<open>nm\<close>, without regard to case; the candidate host names of a section
  (the arguments of its first \<^verbatim>\<open>ServerName\<close> child, and the pieces between single spaces
  of the arguments of each \<^verbatim>\<open>ServerAlias\<close> child); and when a section qualifies.
\<close>

definition named :: "heap \<Rightarrow> string \<Rightarrow> ref \<Rightarrow> bool" where
  "named h nm c = (toLowerCase (name (h ! c)) = toLowerCase nm)"

definition candidates :: "heap \<Rightarrow> ref \<Rightarrow> string set" where
  "candidates h v =
     (case List.find (named h ''ServerName'') (content_refs (h ! v)) of
        None \<Rightarrow> {}
      | Some s \<Rightarrow> {args (h ! s)})
     \<union> (\<Union>a\<in>set (filter (named h ''ServerAlias'') (content_refs (h ! v))).
           set (split_on CHR '' '' (args (h ! a))))"

definition qualifies :: "heap \<Rightarrow> string \<Rightarrow> string option \<Rightarrow> ref \<Rightarrow> bool" where
  "qualifies h hostname arg v =
     ((truthy arg \<longrightarrow> str_includes (args (h ! v)) (the arg)) \<and> hostname \<in> candidates h v)"

text \<open>
  The same with the aliases split as the specification words it, at whitespace: the
  tokens of a string are its maximal runs of characters that are not whitespace.
\<close>

fun ws_tokens_acc :: "string \<Rightarrow> string \<Rightarrow> string list" where
  "ws_tokens_acc acc [] = (if acc = [] then [] else [rev acc])"
| "ws_tokens_acc acc (c # cs) =
     (if is_ws c then (if acc = [] then ws_tokens_acc [] cs else rev acc # ws_tokens_acc [] cs)
      else ws_tokens_acc (c # acc) cs)"

definition ws_tokens :: "string \<Rightarrow> string list" where
  "ws_tokens s = ws_tokens_acc [] s"

definition spec_candidates :: "heap \<Rightarrow> ref \<Rightarrow> string set" where
  "spec_candidates h v =
     (case List.find (named h ''ServerName'') (content_refs (h ! v)) of
        None \<Rightarrow> {}
      | Some s \<Rightarrow> {args (h ! s)})
     \<union> (\<Union>a\<in>set (filter (named h ''ServerAlias'') (content_refs (h ! v))).
           set (ws_tokens (args (h ! a))))"

definition spec_qualifies :: "heap \<Rightarrow> string \<Rightarrow> string option \<Rightarrow> ref \<Rightarrow> bool" where
  "spec_qualifies h hostname arg v =
     ((truthy arg \<longrightarrow> str_includes (args (h ! v)) (the arg)) \<and> hostname \<in> spec_candidates h v)"

subsection \<open>The parser's position\<close>




section \<open>Example stores and files\<close>

text \<open>
  A root and a directive that is not yet a child of it, as in the test \<^verbatim>\<open>add\<close>; stores
  built with \<^verbatim>\<open>insert\<close> as in the README (the root is object 0, the section object 1).
\<close>

definition root_heap :: heap where
  "root_heap = (case new_obj [] default_props None of Inl e \<Rightarrow> [] | Inr (h, r) \<Rightarrow> h)"

definition two_nodes :: heap where
  "two_nodes =
     (case new_obj root_heap (default_props\<lparr>props_raw := Some ''ServerName example.com''\<rparr>) None of
        Inl e \<Rightarrow> []
      | Inr (h1, c) \<Rightarrow> h1)"

definition do_insert :: "heap \<Rightarrow> ref \<Rightarrow> string \<Rightarrow> heap" where
  "do_insert h this s =
     (case insert_node h this (AString s) AOther of Inl e \<Rightarrow> h | Inr (h', r) \<Rightarrow> h')"

definition readme_heap :: heap where
  "readme_heap =
     do_insert (do_insert (do_insert root_heap 0 ''<VirtualHost *:80>'') 1
        ''ServerName example.net'') 1 ''DocumentRoot /var/www/examplenet/''"

definition vhost_heap :: heap where
  "vhost_heap =
     do_insert (do_insert (do_insert (do_insert (do_insert root_heap 0 ''<VirtualHost *:80 *:443>'') 1
        ''ServerAdmin postmaster@example.com'') 1 ''ServerName example.com'') 1
        ''ServerAlias www.example.com example.example.com'') 1 ''ServerAlias x.example.com''"

text \<open>A section whose two aliases are separated by a TAB.\<close>

definition tab_heap :: heap where
  "tab_heap =
     do_insert (do_insert (do_insert root_heap 0 ''<VirtualHost *:80>'') 1
        ''ServerName a.example.com'') 1
        (''ServerAlias b.example.com'' @ [CHR 0x09] @ ''c.example.com'')"

text \<open>
  A file system with two files: \<^verbatim>\<open>./main.conf\<close>, whose only line includes a file that
  does not exist, and \<^verbatim>\<open>extra.conf\<close>, of one directive. Paths are joined with a slash,
  every file lies in the directory \<^verbatim>\<open>.\<close>, and the glob of a pattern is the pattern itself
  when it names a file.
\<close>

definition example_files :: "string \<Rightarrow> entry option" where
  "example_files p =
     (if p = ''./main.conf'' then Some (File [''Include missing.conf''])
      else if p = ''extra.conf'' then Some (File [''Listen 80''])
      else None)"

fun join_paths :: "string list \<Rightarrow> string" where
  "join_paths [] = ''.''"
| "join_paths [p] = p"
| "join_paths (p # q # ps) = p @ ''/'' @ join_paths (q # ps)"

definition example_env :: env where
  "example_env =
     \<lparr>fs = example_files,
      glob_sync = (\<lambda>p. case example_files p of Some (File ls) \<Rightarrow> [p] | _ \<Rightarrow> []),
      path_join = join_paths,
      path_dirname = (\<lambda>p. ''.'')\<rparr>"

text \<open>The properties of a root that does not resolve includes.\<close>

definition no_includes :: NodeProps where
  "no_includes = default_props\<lparr>props_includes := False\<rparr>"

section \<open>Notions used by the round trip\<close>

text \<open>
  The properties of the fields of a node that make its dumped line read back as the
  same kind of node: of a directive, of a section and of a comment. They say which
  characters the pieces are free of, and that the pieces are trimmed.
\<close>

definition no_close :: "string \<Rightarrow> bool" where
  "no_close x = (\<not> str_includes x ''</'')"

definition sfx_ok :: "string option \<Rightarrow> bool" where
  "sfx_ok x =
     (case x of
        None \<Rightarrow> False
      | Some sfx \<Rightarrow>
          (sfx = [] \<or> (hd sfx = CHR ''#'' \<and> \<not> is_ws (last sfx))) \<and> CHR 0x0A \<notin> set sfx)"

definition dir_ok :: "fields \<Rightarrow> bool" where
  "dir_ok f =
     (case cmd f of
        None \<Rightarrow> False
      | Some c \<Rightarrow>
          c \<noteq> [] \<and> \<not> list_ex is_sptab c \<and> CHR ''#'' \<notin> set c \<and> CHR 0x0A \<notin> set c
          \<and> \<not> is_ws (hd c) \<and> hd c \<noteq> CHR ''<'' \<and> no_close c
          \<and> trim (args f) = args f \<and> CHR ''#'' \<notin> set (args f) \<and> CHR 0x0A \<notin> set (args f)
          \<and> no_close (args f) \<and> (args f \<noteq> [] \<or> \<not> is_ws (last c))
          \<and> sfx_ok (suffix f) \<and> no_close (the (suffix f)))"

definition sec_kind :: "fields \<Rightarrow> bool" where
  "sec_kind f =
     (cmd f = None \<and>
      (case section_name f of
         None \<Rightarrow> False
       | Some s \<Rightarrow>
           s \<noteq> [] \<and> list_all is_tagchar s \<and> CHR 0x0A \<notin> set s
           \<and> trim (args f) = args f \<and> CHR ''>'' \<notin> set (args f) \<and> CHR 0x0A \<notin> set (args f)
           \<and> sfx_ok (suffix f)))"

definition sec_ok :: "fields \<Rightarrow> bool" where
  "sec_ok f = (sec_kind f \<and> hd (the (section_name f)) \<noteq> CHR ''/'')"

definition com_ok :: "fields \<Rightarrow> bool" where
  "com_ok f =
     (cmd f = None \<and> section_name f = None \<and> sfx_ok (suffix f) \<and> no_close (the (suffix f)))"

text \<open>
  A node is \<open>parsed_ok\<close> when its fields are those of a directive, or those of a section
  or a comment and its children are \<open>parsed_ok\<close>: this is what the parser makes of
  lines. (A node with the fields of a comment has children when its line opens a
  section and the tag pattern finds no name in it, as in \<^verbatim>\<open>< a>\<close>.) It is \<open>printable\<close>
  when, moreover, no section name in it begins with a slash.
\<close>

fun parsed_ok :: "node \<Rightarrow> bool" where
  "parsed_ok (Node f cs) = (dir_ok f \<or> ((sec_kind f \<or> com_ok f) \<and> list_all parsed_ok cs))"

fun printable :: "node \<Rightarrow> bool" where
  "printable (Node f cs) =
     (dir_ok f \<or> (sec_ok f \<and> list_all printable cs) \<or> (com_ok f \<and> list_all printable cs))"

text \<open>
  The two conditions of the round trip, on a tree. \<open>slash_free\<close>: no section that
  \<^verbatim>\<open>dump\<close> prints has a name that begins with a slash. \<open>include_args\<close>: the arguments
  of the directives that \<^verbatim>\<open>dump\<close> prints and whose command is \<^verbatim>\<open>Include\<close> or
  \<^verbatim>\<open>IncludeOptional\<close>, in any case of the letters; these are the lines of the dump at
  which a parse with include resolution on reads files.
\<close>

fun slash_free :: "node \<Rightarrow> bool" where
  "slash_free (Node f cs) =
     (truthy (cmd f)
      \<or> ((\<not> truthy (section_name f) \<or> \<not> startsWith (the (section_name f)) ''/'')
         \<and> list_all slash_free cs))"

definition include_name :: "string \<Rightarrow> bool" where
  "include_name s = (toLowerCase s = ''include'' \<or> toLowerCase s = ''includeoptional'')"

fun include_args :: "node \<Rightarrow> string list"
  and include_args_all :: "node list \<Rightarrow> string list" where
  "include_args (Node f cs) =
     (if truthy (cmd f) then (if include_name (the (cmd f)) then [args f] else [])
      else include_args_all cs)"
| "include_args_all [] = []"
| "include_args_all (n # ns) = include_args n @ include_args_all ns"

text \<open>
  What the resolution of an include adds to a round trip. A file is quiet for the
  reader \<open>rd\<close> when reading it, from any console, either throws (the loop over the
  matched paths catches it) or returns a root whose content holds no directive and no
  section. An argument is quiet when every path that it resolves to is. The files of an
  environment hold lines when no line of a file contains a line feed, as is the case of
  what \<^verbatim>\<open>readline\<close> yields.
\<close>

definition quiet_read :: "(string \<Rightarrow> string list \<Rightarrow> pstate result) \<Rightarrow> string \<Rightarrow> bool" where
  "quiet_read rd p =
     (\<forall>con. case rd p con of
               OutOfFuel \<Rightarrow> False
             | Threw err c \<Rightarrow> True
             | Done sub \<Rightarrow> skels (root_content sub) = [])"

definition quiet_args :: "(string \<Rightarrow> string list \<Rightarrow> pstate result) \<Rightarrow> (string \<Rightarrow> error + string list)
    \<Rightarrow> string \<Rightarrow> bool" where
  "quiet_args rd matches a =
     (case matches a of Inl err \<Rightarrow> False | Inr ms \<Rightarrow> \<forall>p\<in>set ms. quiet_read rd p)"

definition holds_lines :: "env \<Rightarrow> bool" where
  "holds_lines e = (\<forall>p ls. fs e p = Some (File ls) \<longrightarrow> (\<forall>l\<in>set ls. CHR 0x0A \<notin> set l))"

text \<open>The lines of \<^verbatim>\<open>dump\<close>, without their line feeds, for a depth that is not negative.\<close>

definition indent :: "nat \<Rightarrow> string" where
  "indent d = concat (replicate d prefix_unit)"

definition padded :: "fields \<Rightarrow> string" where
  "padded f = (if truthy (suffix f) then '' '' @ the (suffix f) else [])"

fun dlines :: "nat \<Rightarrow> node \<Rightarrow> string list"
  and dlines_all :: "nat \<Rightarrow> node list \<Rightarrow> string list" where
  "dlines d (Node f cs) =
     (if truthy (cmd f) then [indent d @ the (cmd f) @ '' '' @ args f @ padded f]
      else if truthy (section_name f) then
        [indent d @ ''<'' @ the (section_name f)
           @ (if args f \<noteq> [] then '' '' @ args f else []) @ ''>'' @ padded f]
        @ dlines_all (d + 1) cs
        @ [indent d @ ''</'' @ the (section_name f) @ ''>'']
      else
        (if truthy (suffix f) then [indent d @ the (suffix f)]
         else if truthy (raw f) then [[]] else [])
        @ dlines_all d cs)"
| "dlines_all d [] = []"
| "dlines_all d (n # ns) = dlines d n @ dlines_all d ns"

definition unlines :: "string list \<Rightarrow> string" where
  "unlines ls = concat (map (\<lambda>l. l @ [CHR 0x0A]) ls)"

text \<open>
  The loop of \<^verbatim>\<open>readText\<close> with include resolution off, as a function of the state:
  the node of a line, and the steps over the lines.
\<close>

definition node_of_line :: "string option \<Rightarrow> nat \<Rightarrow> string \<Rightarrow> node" where
  "node_of_line pth i l =
     (case new_Node \<lparr>props_raw = Some l, props_name = None, props_path = pth,
                      props_line = Some i, props_includes = True\<rparr> of
        Inl e \<Rightarrow> Node \<lparr>raw = None, name = [], path = None, line = None, includes_flag = True,
                         section_name = None, cmd = None, args = [], suffix = None\<rparr> []
      | Inr n \<Rightarrow> n)"

fun steps :: "string option \<Rightarrow> string list \<Rightarrow> nat \<Rightarrow> pstate \<Rightarrow> pstate" where
  "steps pth [] i st = st"
| "steps pth (ln # lns) i st =
     (if trim ln = [] then steps pth lns (i + 1) st
      else steps pth lns (i + 1) (place (node_of_line pth (i + 1) (trim ln)) st))"

fun add_nodes :: "node list \<Rightarrow> pstate \<Rightarrow> pstate" where
  "add_nodes [] st = st"
| "add_nodes (n # ns) st = add_nodes ns (add_node n st)"

text \<open>
  What the parser maintains: a node that is still open has the fields of a section or
  of a comment, and children that are \<open>parsed_ok\<close>; every node that is already placed
  is \<open>parsed_ok\<close>.
\<close>

definition open_ok :: "node \<Rightarrow> bool" where
  "open_ok n =
     ((sec_kind (fields_of n) \<or> com_ok (fields_of n)) \<and> list_all parsed_ok (content n))"

definition state_ok :: "pstate \<Rightarrow> bool" where
  "state_ok st =
     (list_all parsed_ok (before_open st) \<and> list_all parsed_ok (after_open st)
      \<and> (case cur st of Attached ss \<Rightarrow> list_all open_ok ss | Detached ss \<Rightarrow> True))"

text \<open>
  Two states of the loop that differ only by nodes which are neither directives nor
  sections, in the root's content: \<^verbatim>\<open>parent\<close> and the chain above it are the same, and
  the root's content has the same directives and sections before and after the open
  section. In both, nothing follows the place of the open section when no section is
  open.
\<close>

definition tidy :: "pstate \<Rightarrow> bool" where
  "tidy st = (case cur st of Attached (s # ss) \<Rightarrow> True | _ \<Rightarrow> after_open st = [])"

definition sim :: "pstate \<Rightarrow> pstate \<Rightarrow> bool" where
  "sim st1 st2 =
     (cur st1 = cur st2 \<and> skels (before_open st1) = skels (before_open st2)
      \<and> skels (after_open st1) = skels (after_open st2) \<and> tidy st1 \<and> tidy st2)"

text \<open>
  A file system with one file, \<^verbatim>\<open>note.conf\<close>, that holds a comment and a blank line; and
  a text that includes it inside a section, with an opening line in which the tag
  pattern finds no name.
\<close>

definition note_files :: "string \<Rightarrow> entry option" where
  "note_files p = (if p = ''note.conf'' then Some (File [''# a note'', []]) else None)"

definition note_env :: env where
  "note_env =
     \<lparr>fs = note_files,
      glob_sync = (\<lambda>p. case note_files p of Some (File ls) \<Rightarrow> [p] | _ \<Rightarrow> []),
      path_join = join_paths,
      path_dirname = (\<lambda>p. ''.'')\<rparr>"

definition note_text :: string where
  "note_text =
     ''<VirtualHost *:80>'' @ [CHR 0x0A] @
     ''  Include note.conf'' @ [CHR 0x0A] @
     ''  ServerName example.com # main'' @ [CHR 0x0A] @
     ''  < a>'' @ [CHR 0x0A] @
     ''  </a>'' @ [CHR 0x0A] @
     ''</VirtualHost>''"

section \<open>Trimming, and the constructor never throws\<close>

lemma trimEnd_decomp: "\<exists>ys. xs = trimEnd xs @ ys \<and> (\<forall>y\<in>set ys. is_ws y)"
proof -
  have "rev xs = takeWhile is_ws (rev xs) @ dropWhile is_ws (rev xs)" by simp
  then have "xs = rev (dropWhile is_ws (rev xs)) @ rev (takeWhile is_ws (rev xs))"
    by (metis rev_append rev_rev_ident)
  moreover have "\<forall>y\<in>set (rev (takeWhile is_ws (rev xs))). is_ws y"
    by (auto dest: set_takeWhileD)
  ultimately show ?thesis unfolding trimEnd_def by blast
qed

lemma trimEnd_last: "trimEnd xs \<noteq> [] \<Longrightarrow> \<not> is_ws (last (trimEnd xs))"
  unfolding trimEnd_def by (simp add: last_rev hd_dropWhile)

lemma trimEnd_hd: "trimEnd xs \<noteq> [] \<Longrightarrow> hd (trimEnd xs) = hd xs"
  using trimEnd_decomp[of xs] by (metis hd_append2)

lemma trimEnd_id: "xs \<noteq> [] \<Longrightarrow> \<not> is_ws (last xs) \<Longrightarrow> trimEnd xs = xs"
  unfolding trimEnd_def by (cases xs rule: rev_cases) auto

lemma trimEnd_Nil [simp]: "trimEnd [] = []"
  by (simp add: trimEnd_def)

lemma trimStart_id: "xs \<noteq> [] \<Longrightarrow> \<not> is_ws (hd xs) \<Longrightarrow> trimStart xs = xs"
  unfolding trimStart_def by (cases xs) auto

lemma trim_hd: "trim s \<noteq> [] \<Longrightarrow> \<not> is_ws (hd (trim s))"
  unfolding trim_def trimStart_def
  by (metis trimEnd_hd trimEnd_Nil hd_dropWhile)

lemma trim_last: "trim s \<noteq> [] \<Longrightarrow> \<not> is_ws (last (trim s))"
  unfolding trim_def by (rule trimEnd_last)

lemma trim_id: "s \<noteq> [] \<Longrightarrow> \<not> is_ws (hd s) \<Longrightarrow> \<not> is_ws (last s) \<Longrightarrow> trim s = s"
  unfolding trim_def by (simp add: trimStart_id trimEnd_id)

lemma trim_Nil [simp]: "trim [] = []"
  by (simp add: trim_def trimStart_def)

lemma trim_trim [simp]: "trim (trim s) = trim s"
  by (cases "trim s = []") (simp_all add: trim_id trim_hd trim_last)

lemma sptab_ws: "is_sptab c \<Longrightarrow> is_ws c"
  by (auto simp: is_sptab_def is_ws_def)

lemma match_cmd_trim: "trim s \<noteq> [] \<Longrightarrow> match_cmd (trim s) \<noteq> None"
proof -
  assume a: "trim s \<noteq> []"
  then have "\<not> is_sptab (hd (trim s))" using trim_hd sptab_ws by blast
  then have "dropWhile is_sptab (trim s) = trim s" using a by (cases "trim s") auto
  then show ?thesis using a by (simp add: match_cmd_def Let_def)
qed

lemma parse_raw_total: "\<exists>v. parse_raw r = Inr v"
  using match_cmd_trim[of "hd (split_on CHR ''#'' r)"]
  by (auto simp: parse_raw_def Let_def split: option.splits)

lemma new_fields_total: "\<exists>f. new_fields p = Inr f"
  using parse_raw_total[of "the (props_raw p)"]
  by (auto simp: new_fields_def Let_def split: sum.splits)

lemma new_Node_total: "\<exists>n. new_Node p = Inr n"
  using new_fields_total[of p] by (auto simp: new_Node_def)

section \<open>Adding, inserting and setting\<close>

text \<open>
  Claim C4, as the code has it. \<^verbatim>\<open>p.add(c)\<close> appends \<open>c\<close> to the content of \<open>p\<close> and
  makes it the last child of \<open>p\<close>; it creates no object and leaves every parent
  reference as it was, that of \<open>c\<close> included. Given a string or any other value that is
  not a node, it throws.
\<close>

theorem add_appends_child:
  assumes "this < length h"
  shows "\<exists>h'. add h this (ANode c) = Inr h' \<and> length h' = length h
           \<and> content_refs (h' ! this) = content_refs (h ! this) @ [c]
           \<and> lastChild (h' ! this) = Some c
           \<and> (\<forall>a. parent (h' ! a) = parent (h ! a))
           \<and> add h this (AString s) = Inl (Error ''Child must be an instance of Node'')
           \<and> add h this AOther = Inl (Error ''Child must be an instance of Node'')"
  using assms by (simp add: add_def nth_list_update)

text \<open>The theorem of C4 at the root and the directive of the test \<^verbatim>\<open>add\<close>.\<close>

theorem add_appends_child_witness:
  "0 < length two_nodes \<and>
   (\<exists>h'. add two_nodes 0 (ANode 1) = Inr h' \<and> length h' = length two_nodes
           \<and> content_refs (h' ! 0) = content_refs (two_nodes ! 0) @ [1]
           \<and> lastChild (h' ! 0) = Some 1
           \<and> (\<forall>a. parent (h' ! a) = parent (two_nodes ! a))
           \<and> add two_nodes 0 (AString ''x'') = Inl (Error ''Child must be an instance of Node'')
           \<and> add two_nodes 0 AOther = Inl (Error ''Child must be an instance of Node''))"
proof -
  have l: "0 < length two_nodes" by code_simp
  show ?thesis using l add_appends_child[OF l, of 1 "''x''"] by simp
qed

text \<open>
  Claim C4 as stated fails: after \<^verbatim>\<open>root.add(cmd)\<close> the directive is the root's only
  child, and its parent is still undefined, not the root.
\<close>

theorem add_sets_parent_counterexample:
  "(case add two_nodes 0 (ANode 1) of
      Inl e \<Rightarrow> False
    | Inr h' \<Rightarrow> content_refs (h' ! 0) = [1] \<and> parent (h' ! 1) = None \<and> parent (h' ! 1) \<noteq> Some 0)"
  by code_simp

text \<open>\<^verbatim>\<open>getIndex\<close> is one more than the last matching position, or \<open>-1\<close>.\<close>

lemma getIndex_loop_none:
  "\<not> list_ex (matches_after h after) cs \<Longrightarrow> getIndex_loop h after cs i idx = idx"
  by (induction cs arbitrary: i idx) (auto simp: matches_after_def split: jsarg.splits)

lemma getIndex_loop_last:
  "last_match (matches_after h after) cs k \<Longrightarrow> getIndex_loop h after cs i idx = int i + int k + 1"
proof (induction cs arbitrary: i idx k)
  case Nil
  then show ?case by (simp add: last_match_def)
next
  case (Cons c cs)
  show ?case
  proof (cases k)
    case 0
    with Cons.prems have m: "matches_after h after c"
      and r: "\<not> list_ex (matches_after h after) cs"
      by (auto simp: last_match_def)
    show ?thesis using 0 m getIndex_loop_none[OF r]
      by (auto simp: matches_after_def split: jsarg.splits)
  next
    case (Suc k')
    with Cons.prems have "last_match (matches_after h after) cs k'"
      by (auto simp: last_match_def)
    from Cons.IH[OF this] show ?thesis using Suc by simp
  qed
qed

lemma last_match_exists: "list_ex P cs \<Longrightarrow> \<exists>k. last_match P cs k"
proof (induction cs)
  case Nil
  then show ?case by simp
next
  case (Cons c cs)
  show ?case
  proof (cases "list_ex P cs")
    case True
    from Cons.IH[OF this] obtain k where "last_match P cs k" by blast
    then have "last_match P (c # cs) (Suc k)" by (simp add: last_match_def)
    then show ?thesis by blast
  next
    case False
    with Cons.prems have "last_match P (c # cs) 0" by (simp add: last_match_def)
    then show ?thesis by blast
  qed
qed

lemma matches_after_append:
  "x < length h \<Longrightarrow> matches_after (h @ t) after x = matches_after h after x"
  by (simp add: matches_after_def nth_append split: jsarg.splits)

lemma take_Suc_last: "k < length cs \<Longrightarrow> nat (int k + 1) = Suc k"
  by simp

text \<open>
  Claim C5. In a store whose root-to-child references are valid, \<^verbatim>\<open>insert\<close> of a node or
  of a string returns a node \<open>c\<close>: the given node, or a new object made by the
  constructor from the string as its raw line. No other object changes, and of the
  receiver only the content: when a child matches \<open>after\<close> there is a last one that
  does, and \<open>c\<close> stands right after it; when no child matches (or \<open>after\<close> is absent),
  \<open>c\<close> stands at the end.
\<close>

theorem insert_after_last_match:
  assumes "this < length h"
    and "\<forall>x\<in>set (content_refs (h ! this)). x < length h"
    and "child \<noteq> AOther"
  shows "\<exists>h' c. insert_node h this child after = Inr (h', Some c)
      \<and> (\<forall>x. x < length h \<and> x \<noteq> this \<longrightarrow> h' ! x = h ! x)
      \<and> h' ! this = (h ! this)\<lparr>content_refs := content_refs (h' ! this)\<rparr>
      \<and> (case child of
            ANode a \<Rightarrow> c = a \<and> length h' = length h
          | AString s \<Rightarrow> c = length h \<and> length h' = Suc (length h)
               \<and> (\<exists>f. new_fields (default_props\<lparr>props_raw := Some s\<rparr>) = Inr f
                       \<and> h' ! c = obj_of f None)
          | AOther \<Rightarrow> False)
      \<and> (list_ex (matches_after h after) (content_refs (h ! this)) \<longrightarrow>
            (\<exists>k. last_match (matches_after h after) (content_refs (h ! this)) k))
      \<and> (\<forall>k. last_match (matches_after h after) (content_refs (h ! this)) k \<longrightarrow>
            content_refs (h' ! this)
              = take (Suc k) (content_refs (h ! this)) @ [c] @ drop (Suc k) (content_refs (h ! this)))
      \<and> (\<not> list_ex (matches_after h after) (content_refs (h ! this)) \<longrightarrow>
            content_refs (h' ! this) = content_refs (h ! this) @ [c])"
proof -
  let ?cs = "content_refs (h ! this)"
  obtain h1 c where prep:
    "(case child of
        ANode c \<Rightarrow> Inr (h, [c])
      | AString x \<Rightarrow>
          (case new_obj h (default_props\<lparr>props_raw := Some x\<rparr>) None of
             Inl e \<Rightarrow> Inl e
           | Inr (h1, c) \<Rightarrow> Inr (h1, [c]))
      | AOther \<Rightarrow> Inr (h, [])) = Inr (h1, [c])"
    and h1: "\<exists>t. h1 = h @ t"
    and ch: "(case child of
            ANode a \<Rightarrow> c = a \<and> length h1 = length h
          | AString s \<Rightarrow> c = length h \<and> length h1 = Suc (length h)
               \<and> (\<exists>f. new_fields (default_props\<lparr>props_raw := Some s\<rparr>) = Inr f
                       \<and> h1 ! c = obj_of f None)
          | AOther \<Rightarrow> False)"
  proof (cases child)
    case (ANode a)
    then show ?thesis using that[of h a] by simp
  next
    case (AString s)
    obtain f where f: "new_fields (default_props\<lparr>props_raw := Some s\<rparr>) = Inr f"
      using new_fields_total by blast
    show ?thesis using that[of "h @ [obj_of f None]" "length h"] AString f
      by (simp add: new_obj_def)
  next
    case AOther
    with assms(3) show ?thesis by simp
  qed
  from h1 obtain t where t: "h1 = h @ t" by blast
  have this1: "h1 ! this = h ! this" using t assms(1) by (simp add: nth_append)
  have m1: "\<And>x. x \<in> set ?cs \<Longrightarrow> matches_after h1 after x = matches_after h after x"
    using t assms(2) matches_after_append by auto
  define idx where "idx = (case after of AOther \<Rightarrow> - 1
      | _ \<Rightarrow> getIndex h1 (content_refs (h1 ! this)) after)"
  define cs' where "cs' = (if idx > - 1
      then take (nat idx) (content_refs (h1 ! this)) @ [c] @ drop (nat idx) (content_refs (h1 ! this))
      else content_refs (h1 ! this) @ [c])"
  define h' where "h' = h1[this := (h1 ! this)\<lparr>content_refs := cs'\<rparr>]"
  have res: "insert_node h this child after = Inr (h', Some c)"
    unfolding insert_node_def prep by (simp add: Let_def idx_def cs'_def h'_def)
  have idx_alt: "idx = (case after of AOther \<Rightarrow> - 1 | _ \<Rightarrow> getIndex h1 ?cs after)"
    by (simp add: idx_def this1 cong: jsarg.case_cong)
  have cs'_alt: "cs' = (if idx > - 1 then take (nat idx) ?cs @ [c] @ drop (nat idx) ?cs
                      else ?cs @ [c])"
    by (simp add: cs'_def this1)
  have len: "this < length h1" using t assms(1) by simp
  have cont: "content_refs (h' ! this) = cs'" using len by (simp add: h'_def)
  have idx_none: "\<not> list_ex (matches_after h after) ?cs \<Longrightarrow> idx = - 1"
  proof -
    assume a: "\<not> list_ex (matches_after h after) ?cs"
    then have "\<not> list_ex (matches_after h1 after) ?cs" using m1 by (simp add: list_ex_iff)
    from getIndex_loop_none[OF this, of 0 "- 1"] show ?thesis
      by (cases after) (simp_all add: idx_alt getIndex_def)
  qed
  have idx_last: "\<And>k. last_match (matches_after h after) ?cs k \<Longrightarrow> idx = int k + 1"
  proof -
    fix k assume a: "last_match (matches_after h after) ?cs k"
    then have "last_match (matches_after h1 after) ?cs k"
      using m1 by (auto simp: last_match_def list_ex_iff dest: in_set_dropD)
    from getIndex_loop_last[OF this, of 0 "- 1"] have "getIndex h1 ?cs after = int k + 1"
      by (simp add: getIndex_def)
    moreover have "after \<noteq> AOther" using a by (auto simp: last_match_def matches_after_def)
    ultimately show "idx = int k + 1" by (cases after) (simp_all add: idx_alt)
  qed
  have "\<forall>x. x < length h \<and> x \<noteq> this \<longrightarrow> h' ! x = h ! x"
    using t by (simp add: h'_def nth_append)
  moreover have "h' ! this = (h ! this)\<lparr>content_refs := content_refs (h' ! this)\<rparr>"
    using len this1 by (simp add: h'_def)
  moreover have "(case child of
            ANode a \<Rightarrow> c = a \<and> length h' = length h
          | AString s \<Rightarrow> c = length h \<and> length h' = Suc (length h)
               \<and> (\<exists>f. new_fields (default_props\<lparr>props_raw := Some s\<rparr>) = Inr f
                       \<and> h' ! c = obj_of f None)
          | AOther \<Rightarrow> False)"
    using ch assms(1) by (auto simp: h'_def split: jsarg.splits)
  moreover have "\<forall>k. last_match (matches_after h after) ?cs k \<longrightarrow>
            content_refs (h' ! this) = take (Suc k) ?cs @ [c] @ drop (Suc k) ?cs"
    using idx_last cont by (auto simp: cs'_alt nat_add_distrib)
  moreover have "\<not> list_ex (matches_after h after) ?cs \<longrightarrow>
            content_refs (h' ! this) = ?cs @ [c]"
    using idx_none cont by (auto simp: cs'_alt)
  ultimately show ?thesis using res last_match_exists[of "matches_after h after" ?cs] by blast
qed

text \<open>The README's store, in which the section (object 1) has the children 2 and 3.\<close>

lemma readme_section_allocated: "1 < length readme_heap" by code_simp

lemma readme_children_valid: "\<forall>x\<in>set (content_refs (readme_heap ! 1)). x < length readme_heap" by code_simp

lemma readme_last_servername: "last_match (matches_after readme_heap (AString ''servername''))
             (content_refs (readme_heap ! 1)) 0" by code_simp

lemma readme_section_content: "content_refs (readme_heap ! 1) = [2, 3]" by code_simp

lemma readme_heap_length: "length readme_heap = 4" by code_simp

lemma readme_alias_cmd: "map_sum id cmd (new_fields (default_props\<lparr>props_raw := Some ''ServerAlias www.example.net''\<rparr>))
      = Inr (Some ''ServerAlias'')"
    by code_simp

text \<open>
  The theorem of C5 at the README's call
  \<^verbatim>\<open>vhost.insert('ServerAlias www.example.net', 'servername')\<close>.
\<close>

theorem insert_after_last_match_witness:
  "\<exists>h'. insert_node readme_heap 1 (AString ''ServerAlias www.example.net'') (AString ''servername'')
           = Inr (h', Some 4)
      \<and> content_refs (readme_heap ! 1) = [2, 3]
      \<and> content_refs (h' ! 1) = [2, 4, 3]
      \<and> cmd (h' ! 4) = Some ''ServerAlias''"
proof -
  have 3: "AString ''ServerAlias www.example.net'' \<noteq> AOther" by simp
  from insert_after_last_match[OF readme_section_allocated readme_children_valid 3, of "AString ''servername''"]
  obtain h' c where r: "insert_node readme_heap 1 (AString ''ServerAlias www.example.net'')
        (AString ''servername'') = Inr (h', Some c)"
    and ch: "c = length readme_heap"
    and f: "\<exists>f. new_fields (default_props\<lparr>props_raw := Some ''ServerAlias www.example.net''\<rparr>) = Inr f
                       \<and> h' ! c = obj_of f None"
    and k: "\<forall>k. last_match (matches_after readme_heap (AString ''servername''))
               (content_refs (readme_heap ! 1)) k \<longrightarrow>
            content_refs (h' ! 1)
              = take (Suc k) (content_refs (readme_heap ! 1)) @ [c] @ drop (Suc k) (content_refs (readme_heap ! 1))"
    by (elim exE conjE) (simp only: jsarg.case, blast)
  have c4: "c = 4" using ch readme_heap_length by simp
  have "content_refs (h' ! 1) = [2, 4, 3]"
    using k[rule_format, OF readme_last_servername] unfolding readme_section_content c4 by simp
  moreover have "cmd (h' ! 4) = Some ''ServerAlias''"
    using f readme_alias_cmd unfolding c4 by (auto simp: obj_of_def)
  ultimately show ?thesis using r readme_section_content c4 by blast
qed

text \<open>\<^verbatim>\<open>children(name)\<close> filters the content by name; an empty name keeps every child.\<close>

lemma children_loop_filter:
  "children_loop h nm cs = (if truthy nm then filter (named h (the nm)) cs else cs)"
  by (induction cs) (auto simp: named_def[abs_def])

lemma nth_update_any: "h[i := x] ! a = (if i = a \<and> i < length h then x else h ! a)"
  by (cases "i < length h") (auto simp: nth_list_update not_less list_update_beyond)

lemma set_args_length [simp]: "length (set_args h as v) = length h"
  by (induction as arbitrary: h) auto

lemma set_args_nth:
  "a < length h \<Longrightarrow>
     set_args h as v ! a = (if a \<in> set as then (h ! a)\<lparr>args := v\<rparr> else h ! a)"
  by (induction as arbitrary: h) (auto simp: nth_update_any)

lemma update_args_name: "name (h[i := (h ! i)\<lparr>args := v\<rparr>] ! a) = name (h ! a)"
  by (simp add: nth_update_any)

lemma update_args_content:
  "content_refs (h[i := (h ! i)\<lparr>args := v\<rparr>] ! a) = content_refs (h ! a)"
  by (simp add: nth_update_any)

lemma set_args_name: "name (set_args h as v ! a) = name (h ! a)"
  by (induction as arbitrary: h) (auto simp: update_args_name)

lemma set_args_content: "content_refs (set_args h as v ! a) = content_refs (h ! a)"
  by (induction as arbitrary: h) (auto simp: update_args_content)

lemma set_args_children:
  "children (set_args h as v) this nm = children h this nm"
  by (simp add: children_def children_loop_filter set_args_content named_def set_args_name
      cong: filter_cong)

lemma set_args_idem: "set_args (set_args h as v) as v = set_args h as v"
  by (rule nth_equalityI) (auto simp: set_args_nth)

text \<open>
  Claim C6, as the code has it. When a child matches \<open>nm\<close>, \<^verbatim>\<open>set\<close> rewrites \<open>args\<close> on
  every matching child, adds nothing, and a second call changes nothing. When none
  matches, it appends one object, made by the constructor from the line \<open>nm v\<close>. A
  second call then adds nothing and sets the \<open>args\<close> of that object to \<open>v\<close> if the
  constructor gave the object a name that matches \<open>nm\<close> (or \<open>nm\<close> is empty), and
  appends yet another object otherwise.
\<close>

theorem set_value_twice:
  assumes "this < length h"
    and "\<forall>x\<in>set (content_refs (h ! this)). x < length h"
  shows "(children h this (Some nm) \<noteq> [] \<longrightarrow>
           (\<exists>h'. set_value h this nm v = Inr h' \<and> length h' = length h
               \<and> (\<forall>a<length h. h' ! a
                     = (if a \<in> set (children h this (Some nm)) then (h ! a)\<lparr>args := v\<rparr> else h ! a))
               \<and> set_value h' this nm v = Inr h'))
       \<and> (children h this (Some nm) = [] \<longrightarrow>
           (\<exists>h' f. set_value h this nm v = Inr h'
               \<and> new_fields (default_props\<lparr>props_raw := Some (nm @ '' '' @ v)\<rparr>) = Inr f
               \<and> h' = (h @ [obj_of f None])
                        [this := (h ! this)\<lparr>content_refs := content_refs (h ! this) @ [length h]\<rparr>]
               \<and> (nm = [] \<or> toLowerCase (name f) = toLowerCase nm \<longrightarrow>
                    (\<exists>h''. set_value h' this nm v = Inr h'' \<and> length h'' = length h'
                        \<and> content_refs (h'' ! this) = content_refs (h' ! this)
                        \<and> args (h'' ! length h) = v))
               \<and> (nm \<noteq> [] \<and> toLowerCase (name f) \<noteq> toLowerCase nm \<longrightarrow>
                    (\<exists>h''. set_value h' this nm v = Inr h'' \<and> length h'' = Suc (length h')))))"
proof (intro conjI impI)
  assume ne: "children h this (Some nm) \<noteq> []"
  let ?h' = "set_args h (children h this (Some nm)) v"
  have "set_value h this nm v = Inr ?h'" using ne by (simp add: set_value_def Let_def)
  moreover have "set_value ?h' this nm v = Inr ?h'"
    using ne by (simp add: set_value_def Let_def set_args_children set_args_idem)
  ultimately show "\<exists>h'. set_value h this nm v = Inr h' \<and> length h' = length h
               \<and> (\<forall>a<length h. h' ! a
                     = (if a \<in> set (children h this (Some nm)) then (h ! a)\<lparr>args := v\<rparr> else h ! a))
               \<and> set_value h' this nm v = Inr h'"
    by (simp add: set_args_nth)
next
  assume emp: "children h this (Some nm) = []"
  obtain f where f: "new_fields (default_props\<lparr>props_raw := Some (nm @ '' '' @ v)\<rparr>) = Inr f"
    using new_fields_total by blast
  let ?cs = "content_refs (h ! this)"
  let ?h1 = "h @ [obj_of f None]"
  let ?h' = "?h1[this := (h ! this)\<lparr>content_refs := ?cs @ [length h]\<rparr>]"
  have ins: "insert_node h this (AString (nm @ '' '' @ v)) AOther = Inr (?h', Some (length h))"
    using f assms(1) by (simp add: insert_node_def new_obj_def Let_def nth_append)
  then have sv: "set_value h this nm v = Inr ?h'"
    using emp by (simp add: set_value_def Let_def)
  have this': "?h' ! this = (h ! this)\<lparr>content_refs := ?cs @ [length h]\<rparr>"
    using assms(1) by simp
  have new': "?h' ! length h = obj_of f None" using assms(1) by simp
  have old': "\<And>x. x < length h \<Longrightarrow> name (?h' ! x) = name (h ! x)"
    using assms(1) by (simp add: nth_list_update nth_append)
  have old_names: "\<And>p. filter (named ?h' p) ?cs = filter (named h p) ?cs"
    using assms(2) old' by (auto simp: named_def intro: filter_cong)
  have newname: "name (?h' ! length h) = name f" using new' by (simp add: obj_of_def)
  have ch': "children ?h' this (Some nm)
               = (if nm = [] then ?cs @ [length h]
                  else if toLowerCase (name f) = toLowerCase nm then [length h] else [])"
    using emp this' old_names[of nm] newname
    by (auto simp: children_def children_loop_filter truthy_def named_def)
  have cs_nil: "nm = [] \<Longrightarrow> ?cs = []"
    using emp by (simp add: children_def children_loop_filter truthy_def)
  have A: "nm = [] \<or> toLowerCase (name f) = toLowerCase nm \<Longrightarrow>
        (\<exists>h''. set_value ?h' this nm v = Inr h'' \<and> length h'' = length ?h'
                        \<and> content_refs (h'' ! this) = content_refs (?h' ! this)
                        \<and> args (h'' ! length h) = v)"
  proof -
    assume c: "nm = [] \<or> toLowerCase (name f) = toLowerCase nm"
    then have chn: "children ?h' this (Some nm) = [length h]" using ch' cs_nil by auto
    then have "set_value ?h' this nm v = Inr (set_args ?h' [length h] v)"
      by (simp add: set_value_def Let_def)
    moreover have "args (set_args ?h' [length h] v ! length h) = v"
      by (simp add: set_args_nth)
    ultimately show ?thesis by (simp add: set_args_content del: set_args.simps)
  qed
  have B: "nm \<noteq> [] \<and> toLowerCase (name f) \<noteq> toLowerCase nm \<Longrightarrow>
        (\<exists>h''. set_value ?h' this nm v = Inr h'' \<and> length h'' = Suc (length ?h'))"
  proof -
    assume c: "nm \<noteq> [] \<and> toLowerCase (name f) \<noteq> toLowerCase nm"
    then have chn: "children ?h' this (Some nm) = []" using ch' by auto
    have "this < length ?h'" using assms(1) by simp
    then show ?thesis using chn f
      by (simp add: set_value_def Let_def insert_node_def new_obj_def)
  qed
  show "\<exists>h' f. set_value h this nm v = Inr h'
               \<and> new_fields (default_props\<lparr>props_raw := Some (nm @ '' '' @ v)\<rparr>) = Inr f
               \<and> h' = (h @ [obj_of f None])
                        [this := (h ! this)\<lparr>content_refs := content_refs (h ! this) @ [length h]\<rparr>]
               \<and> (nm = [] \<or> toLowerCase (name f) = toLowerCase nm \<longrightarrow>
                    (\<exists>h''. set_value h' this nm v = Inr h'' \<and> length h'' = length h'
                        \<and> content_refs (h'' ! this) = content_refs (h' ! this)
                        \<and> args (h'' ! length h) = v))
               \<and> (nm \<noteq> [] \<and> toLowerCase (name f) \<noteq> toLowerCase nm \<longrightarrow>
                    (\<exists>h''. set_value h' this nm v = Inr h'' \<and> length h'' = Suc (length h')))"
    using sv f A B by blast
qed

text \<open>The theorem of C6 at \<^verbatim>\<open>vhost.set('servername', 'example.org')\<close> on the README's store.\<close>

theorem set_value_twice_witness:
  "\<exists>h'. set_value readme_heap 1 ''servername'' ''example.org'' = Inr h'
      \<and> length h' = 4 \<and> args (readme_heap ! 2) = ''example.net'' \<and> args (h' ! 2) = ''example.org''
      \<and> set_value h' 1 ''servername'' ''example.org'' = Inr h'"
proof -
  have 1: "1 < length readme_heap" by code_simp
  have 2: "\<forall>x\<in>set (content_refs (readme_heap ! 1)). x < length readme_heap" by code_simp
  have 3: "children readme_heap 1 (Some ''servername'') = [2]" by code_simp
  have 4: "length readme_heap = 4" by code_simp
  have 5: "args (readme_heap ! 2) = ''example.net''" by code_simp
  from set_value_twice[OF 1 2, of "''servername''" "''example.org''"]
  obtain h' where a: "set_value readme_heap 1 ''servername'' ''example.org'' = Inr h'"
    and b: "length h' = length readme_heap"
    and c: "\<forall>a<length readme_heap. h' ! a
              = (if a \<in> set (children readme_heap 1 (Some ''servername''))
                 then (readme_heap ! a)\<lparr>args := ''example.org''\<rparr> else readme_heap ! a)"
    and d: "set_value h' 1 ''servername'' ''example.org'' = Inr h'"
    unfolding 3 by blast
  have "args (h' ! 2) = ''example.org''" using c[rule_format, of 2] unfolding 3 4 by simp
  then show ?thesis using a b d 4 5 by simp
qed

text \<open>
  Claim C6 as stated fails: on a root without children, \<^verbatim>\<open>set('a b', 'c')\<close> adds a node
  named \<^verbatim>\<open>a\<close>, which the second call does not find, so that two calls leave two nodes
  where one call leaves one.
\<close>

theorem set_value_idempotent_counterexample:
  "(case set_value root_heap 0 ''a b'' ''c'' of
      Inl e \<Rightarrow> False
    | Inr h1 \<Rightarrow>
        (case set_value h1 0 ''a b'' ''c'' of
           Inl e \<Rightarrow> False
         | Inr h2 \<Rightarrow> length (content_refs (h1 ! 0)) = 1 \<and> length (content_refs (h2 ! 0)) = 2))"
  by code_simp

section \<open>Finding a virtual host\<close>

lemma filter_find: "(case filter P xs of [] \<Rightarrow> None | c # cs \<Rightarrow> Some c) = List.find P xs"
  by (induction xs) auto

lemma first_find: "nm \<noteq> [] \<Longrightarrow> first h v nm = List.find (named h nm) (content_refs (h ! v))"
  by (simp add: first_def children_def children_loop_filter truthy_def filter_find)

lemma alias_names_set:
  "set (alias_names h as) = Some ` (\<Union>a\<in>set as. set (split_on CHR '' '' (args (h ! a))))"
  by (induction as) auto

lemma getAllHostnames_candidates:
  "Some hostname \<in> set (getAllHostnames h v) \<longleftrightarrow> hostname \<in> candidates h v"
  by (auto simp: getAllHostnames_def candidates_def first_find alias_names_set children_def
      children_loop_filter truthy_def split: option.splits)

lemma findVHost_loop_find:
  "findVHost_loop h hostname arg vs = List.find (qualifies h hostname arg) vs"
  by (induction vs) (auto simp: qualifies_def getAllHostnames_candidates)

text \<open>
  Claim C7, as the code has it: \<^verbatim>\<open>findVHost\<close> returns the first direct child named
  \<^verbatim>\<open><VirtualHost>\<close> that qualifies, and null when there is none. A section qualifies
  when its arguments contain \<open>arg\<close> (if given and not empty) and the host name is among
  its candidates, the aliases being split at single spaces.
\<close>

theorem findVHost_first_qualifying:
  "findVHost h this hostname arg
     = List.find (qualifies h hostname arg)
         (filter (named h ''<VirtualHost>'') (content_refs (h ! this)))"
  by (simp add: findVHost_def findVHost_loop_find children_def children_loop_filter truthy_def)

text \<open>The theorem of C7 on the section of the tests, found by its second alias.\<close>

theorem findVHost_first_qualifying_witness:
  "findVHost vhost_heap 0 ''example.example.com'' (Some ''*:443'') = Some 1
   \<and> List.find (qualifies vhost_heap ''example.example.com'' (Some ''*:443''))
         (filter (named vhost_heap ''<VirtualHost>'') (content_refs (vhost_heap ! 0))) = Some 1
   \<and> qualifies vhost_heap ''example.example.com'' (Some ''*:443'') 1"
proof -
  have 1: "findVHost vhost_heap 0 ''example.example.com'' (Some ''*:443'') = Some 1"
    by code_simp
  have 2: "List.find (qualifies vhost_heap ''example.example.com'' (Some ''*:443''))
         (filter (named vhost_heap ''<VirtualHost>'') (content_refs (vhost_heap ! 0))) = Some 1"
    using findVHost_first_qualifying[of vhost_heap 0 "''example.example.com''" "Some ''*:443''"] 1
    by simp
  then show ?thesis using 1 by (auto simp: find_Some_iff)
qed

text \<open>
  Claim C7 as stated fails: of two aliases separated by a TAB the second is a
  whitespace-split token, and the section would qualify; \<^verbatim>\<open>findVHost\<close> returns null.
\<close>

theorem findVHost_whitespace_counterexample:
  "findVHost tab_heap 0 ''c.example.com'' None = None
   \<and> List.find (spec_qualifies tab_heap ''c.example.com'' None)
         (filter (named tab_heap ''<VirtualHost>'') (content_refs (tab_heap ! 0))) = Some 1"
  by code_simp

section \<open>Reading lines\<close>

lemma new_Node_raw:
  "new_Node p = Inr n \<Longrightarrow> raw (fields_of n) = props_raw p \<and> content n = []"
  by (auto simp: new_Node_def new_fields_def Let_def split: sum.splits prod.splits)

lemma root_content_move_up [simp]: "root_content (move_up st) = root_content st"
  by (auto simp: root_content_def move_up_def split: cursor.splits list.splits)



lemma text_matches_total: "\<exists>ms. text_matches e a = Inr ms"
  by (auto simp: text_matches_def Let_def existsSync_def lstat_isDirectory_def
      split: option.splits entry.splits)

lemma include_files_never_throws: "include_files rd l ms st \<noteq> Threw err con"
  by (induction ms arbitrary: st) (auto split: result.splits)

lemma read_lines_never_throws:
  assumes "\<And>a. \<exists>ms. matches a = Inr ms"
  shows "read_lines rd matches pth inc lns i st \<noteq> Threw err con"
proof (induction lns arbitrary: i st)
  case Nil
  then show ?case by simp
next
  case (Cons ln lns)
  obtain n where n: "new_Node \<lparr>props_raw = Some (trim ln), props_name = None, props_path = pth,
                            props_line = Some (i + 1), props_includes = True\<rparr> = Inr n"
    using new_Node_total by blast
  obtain ms where ms: "matches (args (fields_of n)) = Inr ms" using assms by blast
  show ?case using n ms Cons.IH include_files_never_throws
    by (auto simp: Let_def split: result.splits)
qed

lemma read_lines_without_includes:
  "\<exists>st'. read_lines rd matches pth False lns i st = Done st'"
proof (induction lns arbitrary: i st)
  case Nil
  then show ?case by simp
next
  case (Cons ln lns)
  obtain n where n: "new_Node \<lparr>props_raw = Some (trim ln), props_name = None, props_path = pth,
                            props_line = Some (i + 1), props_includes = True\<rparr> = Inr n"
    using new_Node_total by blast
  show ?case using n Cons.IH by (simp add: Let_def)
qed






lemma root_content_console [simp]: "root_content (st\<lparr>console := c\<rparr>) = root_content st"
  by (simp add: root_content_def)







text \<open>
  Claim C3: the code emits the close tag of a section that has no children. The text
  is one opening line; the section parsed from it has no content, and the dump ends
  with its close tag.
\<close>

theorem dump_closes_empty_section:
  "(case fromText 0 example_env ''<VirtualHost *:80>'' default_props of
      Done (t, con) \<Rightarrow>
        map content (content t) = [[]]
        \<and> dump t 0 = Inr (''<VirtualHost *:80>'' @ [CHR 0x0A] @ ''</VirtualHost>'' @ [CHR 0x0A])
    | _ \<Rightarrow> False)"
  by code_simp

text \<open>
  Claim C8: \<^verbatim>\<open>readFile\<close> asks \<^verbatim>\<open>lstatSync\<close> about the include's path before the loop
  that catches errors, and without the test of existence that \<^verbatim>\<open>readText\<close> makes. A
  file that includes a missing file cannot be parsed; the same line parsed as text
  gives the directive and no warning.
\<close>

theorem include_of_missing_file_aborts:
  "fromFile 1 example_env ''./main.conf'' default_props = Threw (IOError ''./missing.conf'') []
   \<and> (case fromText 1 example_env ''Include missing.conf'' default_props of
        Done (t, con) \<Rightarrow> map (\<lambda>n. cmd (fields_of n)) (content t) = [Some ''Include''] \<and> con = []
      | _ \<Rightarrow> False)"
  by code_simp

section \<open>Which errors abort a parse\<close>

lemma new_Node_includes:
  "new_Node p = Inr n \<Longrightarrow> includes_flag (fields_of n) = props_includes p"
  by (auto simp: new_Node_def new_fields_def Let_def split: sum.splits prod.splits)

text \<open>
  Claim C9, as the code has it. The constructor never throws: the command portion of a
  line is trimmed before it is matched, so the pattern always finds a token, and no
  line is a syntax error. A parse from text never ends in an error, and it returns
  whenever include resolution is off. A parse from a file ends in the reader's error
  when the file itself cannot be read.
\<close>

theorem parse_abort_conditions:
  "(\<forall>p. \<exists>n. new_Node p = Inr n)
   \<and> (\<forall>k e txt p err con. fromText k e txt p \<noteq> Threw err con)
   \<and> (\<forall>k e txt p. \<not> props_includes p \<longrightarrow> (\<exists>t con. fromText k e txt p = Done (t, con)))
   \<and> (\<forall>k e f p err. read_stream e f = Inl err \<longrightarrow> fromFile (Suc k) e f p = Threw err [])"
proof (intro conjI allI impI)
  fix p show "\<exists>n. new_Node p = Inr n" by (rule new_Node_total)
next
  fix k e tx p err con
  obtain root where r: "new_Node p = Inr root" using new_Node_total by blast
  have "readText k e (includes_flag (fields_of root)) tx [] \<noteq> Threw err con"
    unfolding readText_def by (rule read_lines_never_throws) (rule text_matches_total)
  then show "fromText k e tx p \<noteq> Threw err con"
    using r by (auto simp: fromText_def split: result.splits)
next
  fix k :: nat and e :: env and tx :: string and p :: NodeProps
  assume a: "\<not> props_includes p"
  obtain root where r: "new_Node p = Inr root" using new_Node_total by blast
  have f: "includes_flag (fields_of root) = False" using new_Node_includes[OF r] a by simp
  obtain st' where "readText k e False tx [] = Done st'"
    unfolding readText_def using read_lines_without_includes by blast
  then show "\<exists>t con. fromText k e tx p = Done (t, con)"
    using r f by (simp add: fromText_def)
next
  fix k :: nat and e :: env and f :: string and p :: NodeProps and err :: error
  assume a: "read_stream e f = Inl err"
  obtain root where r: "new_Node p = Inr root" using new_Node_total by blast
  show "fromFile (Suc k) e f p = Threw err []"
    using r a by (simp add: fromFile_def)
qed

text \<open>
  The theorem of C9 at a text with an unmatched close line, and at a file that does
  not exist.
\<close>

theorem parse_abort_conditions_witness:
  "(\<exists>t con. fromText 0 example_env (''</VirtualHost>'' @ [CHR 0x0A] @ ''ServerName a'') no_includes
       = Done (t, con))
   \<and> read_stream example_env ''absent.conf'' = Inl (IOError ''absent.conf'')
   \<and> fromFile 1 example_env ''absent.conf'' default_props = Threw (IOError ''absent.conf'') []"
proof -
  have 1: "\<not> props_includes no_includes" by (simp add: no_includes_def default_props_def)
  have 2: "read_stream example_env ''absent.conf'' = Inl (IOError ''absent.conf'')" by code_simp
  from parse_abort_conditions have
    a: "\<forall>k e txt p. \<not> props_includes p \<longrightarrow> (\<exists>t con. fromText k e txt p = Done (t, con))"
    and b: "\<forall>k e f p err. read_stream e f = Inl err \<longrightarrow> fromFile (Suc k) e f p = Threw err []"
    by blast+
  from a[rule_format, OF 1] b[rule_format, OF 2, of 0 default_props] 2
  show ?thesis by simp
qed

text \<open>
  Claim C9 as stated fails: the parse of a file that does not exist is aborted by the
  reader's error, which is not a syntax error.
\<close>

theorem io_error_aborts_counterexample:
  "fromFile 1 example_env ''absent.conf'' default_props = Threw (IOError ''absent.conf'') []"
  by code_simp

section \<open>Facts about strings\<close>

lemma split_on_not_Nil [simp]: "split_on c s \<noteq> []"
  by (induction s) (auto split: list.splits)

lemma hd_split_on: "hd (split_on c s) = takeWhile (\<lambda>x. x \<noteq> c) s"
  by (induction s) (auto split: list.splits)

lemma split_on_append_sep:
  "c \<notin> set l \<Longrightarrow> split_on c (l @ c # rest) = l # split_on c rest"
  by (induction l) (auto split: list.splits)

lemma split_on_free: "l \<in> set (split_on c s) \<Longrightarrow> c \<notin> set l"
  by (induction s arbitrary: l) (auto split: list.splits if_splits)

lemma split_unlines:
  "\<forall>l\<in>set ls. CHR 0x0A \<notin> set l \<Longrightarrow> split_on (CHR 0x0A) (unlines ls) = ls @ [[]]"
  by (induction ls) (auto simp: unlines_def split_on_append_sep)

lemma inc_close_Cons:
  "str_includes (c # x) ''</'' \<longleftrightarrow>
     (c = CHR ''<'' \<and> x \<noteq> [] \<and> hd x = CHR ''/'') \<or> str_includes x ''</''"
  by (cases x) (auto simp: startsWith_def)

lemma inc_close_Nil [simp]: "\<not> str_includes [] ''</''"
  by simp

lemma inc_close_append:
  "str_includes (x @ y) ''</'' \<longleftrightarrow>
     str_includes x ''</'' \<or> str_includes y ''</''
     \<or> (x \<noteq> [] \<and> last x = CHR ''<'' \<and> y \<noteq> [] \<and> hd y = CHR ''/'')"
proof (induction x)
  case Nil
  then show ?case by simp
next
  case (Cons c x)
  show ?case
    unfolding append_Cons inc_close_Cons Cons.IH
    by (cases x) auto
qed

lemma no_close_append:
  "no_close (x @ y) \<longleftrightarrow>
     no_close x \<and> no_close y \<and> \<not> (x \<noteq> [] \<and> last x = CHR ''<'' \<and> y \<noteq> [] \<and> hd y = CHR ''/'')"
  unfolding no_close_def inc_close_append by blast

lemma no_close_Nil [simp]: "no_close []"
  by (simp add: no_close_def)

lemma no_close_takeWhile: "no_close l \<Longrightarrow> no_close (takeWhile P l)"
  using no_close_append[of "takeWhile P l" "dropWhile P l"] by simp

lemma no_close_dropWhile: "no_close l \<Longrightarrow> no_close (dropWhile P l)"
  using no_close_append[of "takeWhile P l" "dropWhile P l"] by simp

lemma trimEnd_no_close: "no_close l \<Longrightarrow> no_close (trimEnd l)"
  using trimEnd_decomp[of l] no_close_append by metis

lemma no_close_trim: "no_close l \<Longrightarrow> no_close (trim l)"
  unfolding trim_def trimStart_def by (simp add: trimEnd_no_close no_close_dropWhile)

lemma set_trimEnd: "set (trimEnd s) \<subseteq> set s"
  using trimEnd_decomp[of s] by (metis Un_upper1 set_append)

lemma set_trim: "set (trim s) \<subseteq> set s"
  unfolding trim_def trimStart_def
  using set_trimEnd set_dropWhileD by fastforce

lemma trim_ws_append: "\<forall>c\<in>set w. is_ws c \<Longrightarrow> trim (w @ x) = trim x"
proof -
  assume a: "\<forall>c\<in>set w. is_ws c"
  have d: "dropWhile is_ws (w @ x) = dropWhile is_ws x"
    by (rule dropWhile_append2) (use a in auto)
  show ?thesis unfolding trim_def trimStart_def d by simp
qed

lemma trim_append_ws:
  assumes "x \<noteq> []" and "\<not> is_ws (hd x)" and "\<not> is_ws (last x)" and "\<forall>c\<in>set w. is_ws c"
  shows "trim (x @ w) = x"
proof -
  have "trimStart (x @ w) = x @ w" using assms(1,2) by (cases x) (auto simp: trimStart_def)
  moreover have "dropWhile is_ws (rev w @ rev x) = dropWhile is_ws (rev x)"
    by (rule dropWhile_append2) (use assms(4) in auto)
  moreover have "dropWhile is_ws (rev x) = rev x"
    using assms(1,3) by (cases x rule: rev_cases) auto
  ultimately show ?thesis by (simp add: trim_def trimEnd_def)
qed

lemma trim_all_ws: "\<forall>c\<in>set w. is_ws c \<Longrightarrow> trim w = []"
proof -
  assume "\<forall>c\<in>set w. is_ws c"
  then have d: "dropWhile is_ws w = []" by (simp add: dropWhile_eq_Nil_conv)
  show ?thesis unfolding trim_def trimStart_def d by simp
qed

lemma trim_eq_Nil: "trim s = [] \<longleftrightarrow> (\<forall>c\<in>set s. is_ws c)"
proof
  assume a: "trim s = []"
  have "trimEnd (dropWhile is_ws s) = []" using a by (simp add: trim_def trimStart_def)
  then have "\<forall>c\<in>set (dropWhile is_ws s). is_ws c"
    using trimEnd_decomp[of "dropWhile is_ws s"] by auto
  moreover have "s = takeWhile is_ws s @ dropWhile is_ws s" by simp
  ultimately show "\<forall>c\<in>set s. is_ws c"
    by (metis Un_iff set_append set_takeWhileD)
next
  assume "\<forall>c\<in>set s. is_ws c" then show "trim s = []" by (rule trim_all_ws)
qed

lemma indent_ws: "\<forall>c\<in>set (indent d). is_ws c"
  by (auto simp: indent_def prefix_unit_def is_ws_def)

lemma js_repeat_indent: "js_repeat prefix_unit (int d) = Inr (indent d)"
  by (simp add: js_repeat_def indent_def)

lemma indent_free: "CHR 0x0A \<notin> set (indent d)"
  by (auto simp: indent_def prefix_unit_def)

lemma match_suffix_Some:
  "match_suffix l = Some sfx \<Longrightarrow> (\<exists>pre. l = pre @ sfx) \<and> sfx \<noteq> [] \<and> hd sfx = CHR ''#''"
proof (induction l)
  case Nil
  then show ?case by simp
next
  case (Cons c l)
  show ?case
  proof (cases "c = CHR ''#'' \<and> \<not> list_ex is_lineterm l")
    case True
    with Cons.prems show ?thesis by auto
  next
    case False
    with Cons.prems have "match_suffix l = Some sfx" by auto
    from Cons.IH[OF this] show ?thesis by (metis append_Cons)
  qed
qed

lemma match_open_tag_Some:
  "match_open_tag x = Some (s, a) \<Longrightarrow>
     s \<noteq> [] \<and> list_all is_tagchar s \<and> CHR ''>'' \<notin> set a \<and> set s \<subseteq> set x \<and> set a \<subseteq> set x"
proof (induction x)
  case Nil
  then show ?case by simp
next
  case (Cons c x)
  show ?case
  proof (cases "c = CHR ''<'' \<and> (case x of [] \<Rightarrow> False | d # _ \<Rightarrow> is_tagchar d)")
    case True
    with Cons.prems have s: "s = takeWhile is_tagchar x"
      and a: "a = takeWhile (\<lambda>x. x \<noteq> CHR ''>'') (dropWhile is_tagchar x)" by auto
    have "s \<noteq> []" using True s by (cases x) auto
    moreover have "list_all is_tagchar s" using s by (auto simp: list_all_iff dest: set_takeWhileD)
    moreover have "CHR ''>'' \<notin> set a" using a by (auto dest: set_takeWhileD)
    moreover have "set s \<subseteq> set (c # x)" using s by (auto dest: set_takeWhileD)
    moreover have "set a \<subseteq> set (c # x)" using a by (auto dest!: set_takeWhileD set_dropWhileD)
    ultimately show ?thesis by simp
  next
    case False
    with Cons.prems have "match_open_tag x = Some (s, a)" by auto
    from Cons.IH[OF this] show ?thesis by auto
  qed
qed

section \<open>The nodes that the parser makes\<close>

lemma node_of_line_eq:
  assumes "l \<noteq> []" and "parse_raw l = Inr (sec, c, a)"
  shows "node_of_line pth i l =
     Node \<lparr>raw = Some l, name = guess_name l, path = pth, line = Some i, includes_flag = True,
           section_name = sec, cmd = c, args = a,
           suffix = Some (case match_suffix l of Some m \<Rightarrow> m | None \<Rightarrow> [])\<rparr> []"
  using assms
  by (simp add: node_of_line_def new_Node_def new_fields_def truthy_def Let_def
      split: option.splits)

lemma node_of_line_new:
  "new_Node \<lparr>props_raw = Some l, props_name = None, props_path = pth,
             props_line = Some i, props_includes = True\<rparr> = Inr (node_of_line pth i l)"
  using new_Node_total[of "\<lparr>props_raw = Some l, props_name = None, props_path = pth,
             props_line = Some i, props_includes = True\<rparr>"]
  by (auto simp: node_of_line_def)

lemma node_of_line_raw:
  "raw (fields_of (node_of_line pth i l)) = Some l \<and> content (node_of_line pth i l) = []"
  using new_Node_raw[OF node_of_line_new] by simp

lemma sfx_ok_line:
  assumes "l \<noteq> []" and "trim l = l" and "CHR 0x0A \<notin> set l"
  shows "sfx_ok (Some (case match_suffix l of Some m \<Rightarrow> m | None \<Rightarrow> []))"
    and "no_close l \<Longrightarrow> no_close (case match_suffix l of Some m \<Rightarrow> m | None \<Rightarrow> [])"
proof -
  have last_l: "\<not> is_ws (last l)" using trim_last[of l] assms by simp
  show "sfx_ok (Some (case match_suffix l of Some m \<Rightarrow> m | None \<Rightarrow> []))"
  proof (cases "match_suffix l")
    case None
    then show ?thesis by (simp add: sfx_ok_def)
  next
    case (Some m)
    from match_suffix_Some[OF Some] obtain pre where p: "l = pre @ m" "m \<noteq> []" "hd m = CHR ''#''"
      by blast
    have "last m = last l" using p by simp
    moreover have "CHR 0x0A \<notin> set m" using p assms(3) by auto
    ultimately show ?thesis using Some p last_l by (simp add: sfx_ok_def)
  qed
  show "no_close l \<Longrightarrow> no_close (case match_suffix l of Some m \<Rightarrow> m | None \<Rightarrow> [])"
  proof (cases "match_suffix l")
    case None
    then show ?thesis by simp
  next
    case (Some m)
    assume n: "no_close l"
    from match_suffix_Some[OF Some] obtain pre where p: "l = pre @ m" by blast
    then show ?thesis using Some n no_close_append[of pre m] by simp
  qed
qed

lemma no_close_Cons:
  "no_close (c # x) \<longleftrightarrow> \<not> (c = CHR ''<'' \<and> x \<noteq> [] \<and> hd x = CHR ''/'') \<and> no_close x"
  unfolding no_close_def inc_close_Cons by blast

lemma match_open_tag_None: "match_open_tag l = None \<Longrightarrow> no_close l"
proof (induction l)
  case Nil
  then show ?case by simp
next
  case (Cons c l)
  from Cons.prems have a: "\<not> (c = CHR ''<'' \<and> (case l of [] \<Rightarrow> False | d # _ \<Rightarrow> is_tagchar d))"
    and b: "match_open_tag l = None" by (auto split: if_splits)
  have "\<not> (c = CHR ''<'' \<and> l \<noteq> [] \<and> hd l = CHR ''/'')"
    using a by (cases l) (auto simp: is_tagchar_def)
  then show ?case using Cons.IH[OF b] by (simp add: no_close_Cons)
qed

lemma open_line_kind:
  assumes "l \<noteq> []" and "trim l = l" and "CHR 0x0A \<notin> set l" and "isOpen (Some l)"
  shows "sec_kind (fields_of (node_of_line pth i l)) \<or> com_ok (fields_of (node_of_line pth i l))"
proof (cases "match_open_tag l")
  case None
  have pr: "parse_raw l = Inr (None, None, [])" using assms(4) None by (simp add: parse_raw_def)
  have "no_close l" using None by (rule match_open_tag_None)
  then show ?thesis
    unfolding node_of_line_eq[OF assms(1) pr]
    using sfx_ok_line[OF assms(1,2,3)] by (simp add: com_ok_def)
next
  case (Some sa)
  then obtain s a0 where m: "match_open_tag l = Some (s, a0)" by (cases sa) auto
  from match_open_tag_Some[OF m] have s: "s \<noteq> []" "list_all is_tagchar s"
    "CHR ''>'' \<notin> set a0" "set s \<subseteq> set l" "set a0 \<subseteq> set l" by auto
  have pr: "parse_raw l = Inr (Some s, None, trim a0)"
    using assms(4) m by (simp add: parse_raw_def)
  have "CHR ''>'' \<notin> set (trim a0)" "CHR 0x0A \<notin> set (trim a0)"
    using set_trim[of a0] s(3,5) assms(3) by auto
  moreover have "CHR 0x0A \<notin> set s" using s(4) assms(3) by auto
  ultimately show ?thesis
    unfolding node_of_line_eq[OF assms(1) pr]
    using s sfx_ok_line(1)[OF assms(1,2,3)] by (simp add: sec_kind_def)
qed

lemma other_line_ok:
  assumes "l \<noteq> []" and "trim l = l" and "CHR 0x0A \<notin> set l"
    and "\<not> isOpen (Some l)" and "\<not> isClose (Some l)"
  shows "dir_ok (fields_of (node_of_line pth i l)) \<or> com_ok (fields_of (node_of_line pth i l))"
proof -
  let ?sfx = "case match_suffix l of Some m \<Rightarrow> m | None \<Rightarrow> []"
  define b where "b = takeWhile (\<lambda>x. x \<noteq> CHR ''#'') l"
  define cmdline where "cmdline = trim b"
  have ncl: "no_close l" using assms(1,5) by (simp add: isClose_def match_close_def no_close_def)
  have sfx: "sfx_ok (Some ?sfx)" "no_close ?sfx"
    using sfx_ok_line[OF assms(1,2,3)] ncl by auto
  have hdl: "\<not> is_ws (hd l)" using trim_hd[of l] assms by simp
  show ?thesis
  proof (cases "cmdline = []")
    case True
    then have pr: "parse_raw l = Inr (None, None, [])"
      using assms(4,5) by (simp add: parse_raw_def hd_split_on b_def cmdline_def)
    show ?thesis unfolding node_of_line_eq[OF assms(1) pr] using sfx by (simp add: com_ok_def)
  next
    case False
    define c where "c = takeWhile (\<lambda>x. \<not> is_sptab x) cmdline"
    define r1 where "r1 = dropWhile (\<lambda>x. \<not> is_sptab x) cmdline"
    define r2 where "r2 = dropWhile is_sptab r1"
    define a where "a = trim (takeWhile (\<lambda>x. x \<noteq> CHR ''#'') r2)"
    have bne: "b \<noteq> []" using False by (auto simp: cmdline_def)
    then have hdb: "hd b = hd l" unfolding b_def by (cases l) (auto split: if_splits)
    have hash_b: "CHR ''#'' \<notin> set b" unfolding b_def by (auto dest: set_takeWhileD)
    have set_b: "set b \<subseteq> set l" unfolding b_def by (auto dest: set_takeWhileD)
    have ncb: "no_close b" unfolding b_def using ncl by (rule no_close_takeWhile)
    have "trimStart b = b" using bne hdb hdl by (simp add: trimStart_id)
    then have cl: "cmdline = trimEnd b" by (simp add: cmdline_def trim_def)
    then have hdc: "hd cmdline = hd l" using False trimEnd_hd[of b] hdb by simp
    have set_c: "set cmdline \<subseteq> set b" unfolding cmdline_def by (rule set_trim)
    have ncc: "no_close cmdline" unfolding cmdline_def using ncb by (rule no_close_trim)
    have lastc: "\<not> is_ws (last cmdline)" using False trim_last[of b] by (simp add: cmdline_def)
    have nsp: "\<not> is_sptab (hd cmdline)" using hdc hdl sptab_ws by auto
    then have s1: "dropWhile is_sptab cmdline = cmdline" using False by (cases cmdline) auto
    have mc: "match_cmd cmdline = Some (c, takeWhile (\<lambda>x. x \<noteq> CHR ''#'') r2)"
      using False by (simp add: match_cmd_def s1 Let_def c_def r1_def r2_def)
    have pr: "parse_raw l = Inr (None, Some c, a)"
      using assms(4,5) False mc
      by (simp add: parse_raw_def hd_split_on b_def[symmetric] cmdline_def[symmetric] a_def)
    have split: "cmdline = c @ r1" by (simp add: c_def r1_def)
    have cne: "c \<noteq> []" using False nsp unfolding c_def by (cases cmdline) auto
    then have hd_c: "hd c = hd l" using split hdc by (metis hd_append2)
    have lt: "hd l \<noteq> CHR ''<''"
    proof
      assume h: "hd l = CHR ''<''"
      then obtain r where l: "l = CHR ''<'' # r" using assms(1) by (cases l) auto
      have "\<not> (r = [] \<or> hd r \<noteq> CHR ''/'')"
        using assms(4) l by (cases r) (auto simp: isOpen_def match_open_def is_sptab_def)
      then have "str_includes l ''</''" unfolding l inc_close_Cons by simp
      then show False using ncl by (simp add: no_close_def)
    qed
    have c1: "\<not> list_ex is_sptab c" unfolding c_def by (auto simp: list_ex_iff dest: set_takeWhileD)
    have set_cc: "set c \<subseteq> set cmdline" unfolding c_def by (auto dest: set_takeWhileD)
    have set_r1: "set r1 \<subseteq> set cmdline" unfolding r1_def by (auto dest: set_dropWhileD)
    have set_r2: "set r2 \<subseteq> set r1" unfolding r2_def by (auto dest: set_dropWhileD)
    have set_a: "set a \<subseteq> set r2"
      unfolding a_def using set_trim[of "takeWhile (\<lambda>x. x \<noteq> CHR ''#'') r2"]
      by (auto dest: set_takeWhileD)
    have set_cb: "set c \<subseteq> set b" using set_cc set_c by blast
    have set_ab: "set a \<subseteq> set b" using set_a set_r2 set_r1 set_c by blast
    have c2: "CHR ''#'' \<notin> set c" "CHR 0x0A \<notin> set c"
      using set_cb hash_b set_b assms(3) by blast+
    have a2: "CHR ''#'' \<notin> set a" "CHR 0x0A \<notin> set a"
      using set_ab hash_b set_b assms(3) by blast+
    have ncc': "no_close c" unfolding c_def using ncc by (rule no_close_takeWhile)
    have nca: "no_close a" unfolding a_def r2_def r1_def
      by (intro no_close_trim no_close_takeWhile no_close_dropWhile ncc)
    have last_c: "a \<noteq> [] \<or> \<not> is_ws (last c)"
    proof (cases "a = []")
      case True
      have tw: "takeWhile (\<lambda>x. x \<noteq> CHR ''#'') r2 = r2"
        using set_r2 set_r1 set_c hash_b by (auto simp: takeWhile_eq_all_conv)
      have "trim r2 = []" using True unfolding a_def tw .
      then have w2: "\<forall>x\<in>set r2. is_ws x" by (simp add: trim_eq_Nil)
      have "r1 = takeWhile is_sptab r1 @ r2" by (simp add: r2_def)
      then have w1: "\<forall>x\<in>set r1. is_ws x"
        using w2 by (metis Un_iff set_append set_takeWhileD sptab_ws)
      have "r1 = []"
      proof (rule ccontr)
        assume "r1 \<noteq> []"
        then have "last cmdline = last r1" "last r1 \<in> set r1" using split by auto
        then show False using w1 lastc by auto
      qed
      then have "cmdline = c" using split by simp
      then show ?thesis using lastc by simp
    next
      case False
      then show ?thesis by simp
    qed
    have "trim a = a" by (simp add: a_def)
    then show ?thesis
      unfolding node_of_line_eq[OF assms(1) pr]
      using cne c1 c2 a2 hd_c hdl lt ncc' nca last_c sfx by (simp add: dir_ok_def)
  qed
qed

section \<open>Dumping printable nodes\<close>

lemma unlines_append [simp]: "unlines (xs @ ys) = unlines xs @ unlines ys"
  by (simp add: unlines_def)

lemma unlines_Cons [simp]: "unlines (l # ls) = l @ CHR 0x0A # unlines ls"
  by (simp add: unlines_def)

lemma unlines_Nil [simp]: "unlines [] = []"
  by (simp add: unlines_def)

lemma sfx_ok_Some: "sfx_ok x \<Longrightarrow> \<exists>sfx. x = Some sfx"
  by (cases x) (auto simp: sfx_ok_def)

lemma dump_all_printable:
  assumes "\<And>c d. c \<in> set cs \<Longrightarrow> printable c \<Longrightarrow> dump c (int d) = Inr (unlines (dlines d c))"
    and "list_all printable cs"
  shows "dump_all cs (int d) = Inr (unlines (dlines_all d cs))"
  using assms by (induction cs) auto

lemma dump_printable:
  "printable n \<Longrightarrow> dump n (int d) = Inr (unlines (dlines d n))"
proof (induction n arbitrary: d)
  case (Node f cs)
  have kids: "list_all printable cs \<Longrightarrow> dump_all cs (int d') = Inr (unlines (dlines_all d' cs))" for d'
    using Node.IH by (intro dump_all_printable) auto
  from Node.prems consider (dir) "dir_ok f" | (sec) "sec_ok f" "list_all printable cs"
    | (com) "com_ok f" "list_all printable cs" by auto
  then show ?case
  proof cases
    case dir
    then obtain c where c: "cmd f = Some c" "c \<noteq> []"
      by (auto simp: dir_ok_def split: option.splits)
    then show ?thesis
      by (simp add: truthy_def js_repeat_indent padded_def)
  next
    case sec
    then obtain s where s: "cmd f = None" "section_name f = Some s" "s \<noteq> []" "hd s \<noteq> CHR ''/''"
      by (auto simp: sec_ok_def sec_kind_def split: option.splits)
    then have nsl: "\<not> startsWith s ''/''" by (cases s) (auto simp: startsWith_def)
    have k: "dump_all cs (int d + 1) = Inr (unlines (dlines_all (d + 1) cs))"
      using kids[OF sec(2), of "d + 1"] by (simp add: add.commute)
    show ?thesis using s nsl k
      by (simp add: truthy_def js_repeat_indent padded_def children_length_def)
  next
    case com
    then have "cmd f = None" "section_name f = None" by (auto simp: com_ok_def)
    then show ?thesis using kids[OF com(2), of d]
      by (simp add: truthy_def js_repeat_indent children_length_def)
  qed
qed

lemma dlines_free:
  "printable n \<Longrightarrow> l \<in> set (dlines d n) \<Longrightarrow> CHR 0x0A \<notin> set l"
proof (induction n arbitrary: d l)
  case (Node f cs)
  have kids: "list_all printable cs \<Longrightarrow> l' \<in> set (dlines_all d' cs) \<Longrightarrow> CHR 0x0A \<notin> set l'" for d' l'
    using Node.IH by (induction cs) (auto simp del: dlines.simps)
  from Node.prems(1) consider (dir) "dir_ok f" | (sec) "sec_ok f" "list_all printable cs"
    | (com) "com_ok f" "list_all printable cs" by auto
  then show ?case
  proof cases
    case dir
    then show ?thesis using Node.prems(2) indent_free[of d]
      by (auto simp: dir_ok_def sfx_ok_def truthy_def padded_def split: option.splits if_splits)
  next
    case sec
    then show ?thesis using Node.prems(2) indent_free[of d] kids[OF sec(2)]
      by (auto simp: sec_ok_def sec_kind_def sfx_ok_def truthy_def padded_def
          split: option.splits if_splits)
  next
    case com
    then show ?thesis using Node.prems(2) indent_free[of d] kids[OF com(2)]
      by (auto simp: com_ok_def sfx_ok_def truthy_def split: option.splits if_splits)
  qed
qed

lemma dlines_all_free:
  "list_all printable ns \<Longrightarrow> l \<in> set (dlines_all d ns) \<Longrightarrow> CHR 0x0A \<notin> set l"
  by (induction ns) (auto simp del: dlines.simps dest: dlines_free)

section \<open>Reading a dumped line back\<close>

lemma not_sptab_hd: "x \<noteq> [] \<Longrightarrow> \<not> is_ws (hd x) \<Longrightarrow> dropWhile is_sptab x = x"
  using sptab_ws by (cases x) auto

lemma isOpen_hd:
  "x \<noteq> [] \<Longrightarrow> \<not> is_ws (hd x) \<Longrightarrow> hd x \<noteq> CHR ''<'' \<Longrightarrow> \<not> isOpen (Some x)"
  using not_sptab_hd[of x] by (cases x) (auto simp: isOpen_def match_open_def)

lemma isClose_no_close: "no_close x \<Longrightarrow> \<not> isClose (Some x)"
  by (simp add: isClose_def match_close_def no_close_def)

lemma no_close_join:
  "no_close x \<Longrightarrow> no_close y \<Longrightarrow> no_close (x @ CHR '' '' # y)"
  using no_close_append[of x "CHR '' '' # y"] by (simp add: no_close_Cons)

lemma space_ws: "\<forall>c\<in>set '' ''. is_ws c" "\<forall>c\<in>set ''  ''. is_ws c"
  by (simp_all add: is_ws_def)

lemma match_cmd_token:
  assumes "c \<noteq> []" and "\<not> list_ex is_sptab c"
  shows "match_cmd c = Some (c, [])"
proof -
  have a: "\<forall>x\<in>set c. \<not> is_sptab x" using assms(2) by (simp add: list_ex_iff)
  then have 1: "dropWhile is_sptab c = c" using assms(1) by (cases c) auto
  have 2: "takeWhile (\<lambda>x. \<not> is_sptab x) c = c" using a by (simp add: takeWhile_eq_all_conv)
  have 3: "dropWhile (\<lambda>x. \<not> is_sptab x) c = []" using a by (simp add: dropWhile_eq_Nil_conv)
  show ?thesis using assms(1) unfolding match_cmd_def Let_def 1 2 3 by simp
qed

lemma match_cmd_token_args:
  assumes "c \<noteq> []" and "\<not> list_ex is_sptab c" and "a \<noteq> []" and "\<not> is_ws (hd a)"
    and "CHR ''#'' \<notin> set a"
  shows "match_cmd (c @ '' '' @ a) = Some (c, a)"
proof -
  have q: "\<And>x. x \<in> set c \<Longrightarrow> \<not> is_sptab x" using assms(2) by (simp add: list_ex_iff)
  have 1: "dropWhile is_sptab (c @ '' '' @ a) = c @ '' '' @ a"
    using assms(1) q by (cases c) auto
  have 2: "takeWhile (\<lambda>x. \<not> is_sptab x) (c @ '' '' @ a) = c"
    using q by (simp add: takeWhile_append2 is_sptab_def)
  have 3: "dropWhile (\<lambda>x. \<not> is_sptab x) (c @ '' '' @ a) = '' '' @ a"
    using q by (simp add: dropWhile_append2 is_sptab_def)
  have 4: "dropWhile is_sptab ('' '' @ a) = a"
    using not_sptab_hd[OF assms(3,4)] by (simp add: is_sptab_def)
  have 5: "takeWhile (\<lambda>x. x \<noteq> CHR ''#'') a = a"
    using assms(5) by (auto simp: takeWhile_eq_all_conv)
  show ?thesis using assms(1) unfolding match_cmd_def Let_def 1 2 3 4 5 by simp
qed

lemma reparse_dir:
  assumes "dir_ok f"
    and ln: "ln = indent d @ the (cmd f) @ '' '' @ args f @ padded f"
  shows "trim ln \<noteq> [] \<and> \<not> isOpen (Some (trim ln)) \<and> \<not> isClose (Some (trim ln))
     \<and> cmd (fields_of (node_of_line pth i (trim ln))) = cmd f
     \<and> args (fields_of (node_of_line pth i (trim ln))) = args f
     \<and> name (fields_of (node_of_line pth i (trim ln))) = the (cmd f)"
proof -
  from assms(1) obtain c sfx where c: "cmd f = Some c" and sf: "suffix f = Some sfx"
    and cne: "c \<noteq> []" and csp: "\<not> list_ex is_sptab c" and ch: "CHR ''#'' \<notin> set c"
    and hws: "\<not> is_ws (hd c)" and hlt: "hd c \<noteq> CHR ''<''" and ncc: "no_close c"
    and ta: "trim (args f) = args f" and ah: "CHR ''#'' \<notin> set (args f)"
    and nca: "no_close (args f)" and lc: "args f \<noteq> [] \<or> \<not> is_ws (last c)"
    and so: "sfx = [] \<or> (hd sfx = CHR ''#'' \<and> \<not> is_ws (last sfx))" and ncs: "no_close sfx"
    by (auto simp: dir_ok_def sfx_ok_def split: option.splits)
  let ?a = "args f"
  define x where "x = (if ?a = [] then c else c @ '' '' @ ?a)"
  define w where "w = (if ?a = [] then ''  '' else '' '')"
  define l' where "l' = (if sfx = [] then x else x @ w @ sfx)"
  have a_ends: "?a \<noteq> [] \<Longrightarrow> \<not> is_ws (hd ?a) \<and> \<not> is_ws (last ?a)"
    using trim_hd[of ?a] trim_last[of ?a] ta by simp
  have xne: "x \<noteq> []" using cne by (simp add: x_def)
  have xhd: "hd x = hd c" using cne by (simp add: x_def)
  have xlast: "\<not> is_ws (last x)" using lc a_ends by (auto simp: x_def)
  have xh: "CHR ''#'' \<notin> set x" using ch ah by (simp add: x_def)
  have ncx: "no_close x" using ncc nca by (simp add: x_def no_close_join)
  have wws: "\<forall>c\<in>set w. is_ws c" by (simp add: w_def is_ws_def)
  have wne: "w \<noteq> []" "hd w = CHR '' ''" "last w = CHR '' ''" "CHR ''#'' \<notin> set w" "no_close w"
    by (simp_all add: w_def no_close_Cons)
  have mx: "\<exists>a'. match_cmd x = Some (c, a') \<and> trim a' = ?a"
  proof (cases "?a = []")
    case True
    then show ?thesis using match_cmd_token[OF cne csp] by (simp add: x_def)
  next
    case False
    then show ?thesis
      using match_cmd_token_args[OF cne csp False _ ah] a_ends ta by (simp add: x_def)
  qed
  have body: "the (cmd f) @ '' '' @ ?a @ padded f
      = (if sfx = [] then (if ?a = [] then x @ '' '' else x) else l')"
    using c sf by (simp add: padded_def truthy_def x_def l'_def w_def)
  have l'ne: "l' \<noteq> []" using xne by (simp add: l'_def)
  have l'hd: "hd l' = hd c" using xne xhd by (simp add: l'_def)
  have l'last: "\<not> is_ws (last l')" using xlast so by (auto simp: l'_def)
  have trl': "trim l' = l'" using l'ne l'hd hws l'last by (simp add: trim_id)
  have tl: "trim ln = l'"
  proof -
    have "trim ln = trim (the (cmd f) @ '' '' @ ?a @ padded f)"
      unfolding ln by (rule trim_ws_append) (rule indent_ws)
    also have "\<dots> = l'"
    proof (cases "sfx = []")
      case True
      have 1: "trim (x @ '' '') = x" using xne xhd hws xlast space_ws(1) by (intro trim_append_ws) auto
      have 2: "trim x = x" using trl' True by (simp add: l'_def)
      show ?thesis using True unfolding body by (simp add: l'_def 1 2)
    next
      case False
      then show ?thesis unfolding body using trl' by simp
    qed
    finally show ?thesis .
  qed
  have no: "\<not> isOpen (Some l')" using l'ne l'hd hws hlt by (intro isOpen_hd) auto
  have ncl: "no_close l'"
  proof (cases "sfx = []")
    case True
    then show ?thesis using ncx by (simp add: l'_def)
  next
    case False
    have "no_close (w @ sfx)" using wne ncs by (simp add: no_close_append)
    then have "no_close (x @ w @ sfx)" using ncx wne by (simp add: no_close_append)
    then show ?thesis using False by (simp add: l'_def)
  qed
  have tw: "trim (takeWhile (\<lambda>x. x \<noteq> CHR ''#'') l') = x"
  proof (cases "sfx = []")
    case True
    have 1: "takeWhile (\<lambda>x. x \<noteq> CHR ''#'') x = x" using xh by (auto simp: takeWhile_eq_all_conv)
    have 2: "trim x = x" using trl' True by (simp add: l'_def)
    show ?thesis using True by (simp add: l'_def 1 2)
  next
    case False
    then obtain r where r: "sfx = CHR ''#'' # r" using so by (cases sfx) auto
    have "takeWhile (\<lambda>x. x \<noteq> CHR ''#'') ((x @ w) @ sfx)
        = (x @ w) @ takeWhile (\<lambda>x. x \<noteq> CHR ''#'') sfx"
      by (rule takeWhile_append2) (use xh wne(4) in auto)
    then have 1: "takeWhile (\<lambda>x. x \<noteq> CHR ''#'') (x @ w @ sfx) = x @ w"
      unfolding r by simp
    have 2: "trim (x @ w) = x" using xne xhd hws xlast wws by (intro trim_append_ws) auto
    show ?thesis using False by (simp add: l'_def 1 2)
  qed
  from mx obtain a' where a': "match_cmd x = Some (c, a')" "trim a' = ?a" by blast
  have pr: "parse_raw l' = Inr (None, Some c, ?a)"
    using no isClose_no_close[OF ncl] xne a'
    by (simp add: parse_raw_def hd_split_on tw)
  define r where "r = (if ?a = [] then [] else '' '' @ ?a) @ (if sfx = [] then [] else w @ sfx)"
  have lr: "l' = c @ r" by (simp add: r_def l'_def x_def)
  have rh: "r = [] \<or> hd r = CHR '' ''" using wne(1,2) by (auto simp: r_def)
  have sp: "\<forall>x\<in>set c. x \<noteq> CHR '' ''" using csp by (auto simp: list_ex_iff is_sptab_def)
  have "takeWhile (\<lambda>x. x \<noteq> CHR '' '') (c @ r) = c @ takeWhile (\<lambda>x. x \<noteq> CHR '' '') r"
    by (rule takeWhile_append2) (use sp in auto)
  moreover have "takeWhile (\<lambda>x. x \<noteq> CHR '' '') r = []" using rh by (cases r) auto
  ultimately have tw2: "takeWhile (\<lambda>x. x \<noteq> CHR '' '') l' = c" by (simp add: lr)
  have "\<not> startsWith c ''<''" using cne hlt by (cases c) (auto simp: startsWith_def)
  then have gn: "guess_name l' = c" by (simp add: guess_name_def hd_split_on trl' tw2 Let_def)
  show ?thesis
    unfolding tl node_of_line_eq[OF l'ne pr]
    using l'ne no isClose_no_close[OF ncl] c gn by simp
qed

lemma match_open_tag_here:
  "xs \<noteq> [] \<Longrightarrow> is_tagchar (hd xs) \<Longrightarrow>
     match_open_tag (CHR ''<'' # xs)
       = Some (takeWhile is_tagchar xs,
               takeWhile (\<lambda>x. x \<noteq> CHR ''>'') (dropWhile is_tagchar xs))"
  by (cases xs) auto

lemma reparse_open:
  assumes "sec_ok f"
    and ln: "ln = indent d @ ''<'' @ the (section_name f)
           @ (if args f \<noteq> [] then '' '' @ args f else []) @ ''>'' @ padded f"
  shows "trim ln \<noteq> [] \<and> isOpen (Some (trim ln))
     \<and> cmd (fields_of (node_of_line pth i (trim ln))) = None
     \<and> section_name (fields_of (node_of_line pth i (trim ln))) = section_name f
     \<and> args (fields_of (node_of_line pth i (trim ln))) = args f
     \<and> hd (trim ln) = CHR ''<''"
proof -
  from assms(1) obtain s sfx where s: "section_name f = Some s" and sf: "suffix f = Some sfx"
    and sne: "s \<noteq> []" and st: "list_all is_tagchar s" and hs: "hd s \<noteq> CHR ''/''"
    and ta: "trim (args f) = args f" and ag: "CHR ''>'' \<notin> set (args f)"
    and so: "sfx = [] \<or> (hd sfx = CHR ''#'' \<and> \<not> is_ws (last sfx))"
    by (auto simp: sec_ok_def sec_kind_def sfx_ok_def split: option.splits)
  let ?a = "args f"
  define mid where "mid = (if ?a \<noteq> [] then CHR '' '' # ?a else [])"
  define pad where "pad = (if sfx \<noteq> [] then CHR '' '' # sfx else [])"
  define rest where "rest = mid @ CHR ''>'' # pad"
  define body where "body = CHR ''<'' # s @ rest"
  have ln': "ln = indent d @ body"
    using s sf by (simp add: ln body_def rest_def mid_def pad_def padded_def truthy_def)
  have bne: "body \<noteq> []" by (simp add: body_def)
  have bhd: "hd body = CHR ''<''" by (simp add: body_def)
  have blast': "\<not> is_ws (last body)"
    using so by (auto simp: body_def rest_def pad_def is_ws_def)
  have "trim ln = trim body" unfolding ln' by (rule trim_ws_append) (rule indent_ws)
  also have "\<dots> = body" using bne bhd blast' by (intro trim_id) (auto simp: is_ws_def)
  finally have tl: "trim ln = body" .
  have hd_tag: "is_tagchar (hd s)" using sne st by (cases s) auto
  have rest_hd: "rest \<noteq> [] \<and> \<not> is_tagchar (hd rest)"
    by (auto simp: rest_def mid_def is_tagchar_def)
  have op: "isOpen (Some body)"
    using sne hs by (cases s) (auto simp: isOpen_def match_open_def body_def is_sptab_def)
  have tws: "takeWhile is_tagchar (s @ rest) = s @ takeWhile is_tagchar rest"
    by (rule takeWhile_append2) (use st in \<open>auto simp: list_all_iff\<close>)
  have dws: "dropWhile is_tagchar (s @ rest) = dropWhile is_tagchar rest"
    by (rule dropWhile_append2) (use st in \<open>auto simp: list_all_iff\<close>)
  have r0: "takeWhile is_tagchar rest = []" "dropWhile is_tagchar rest = rest"
    using rest_hd by (cases rest; simp)+
  have "takeWhile (\<lambda>x. x \<noteq> CHR ''>'') (mid @ CHR ''>'' # pad)
      = mid @ takeWhile (\<lambda>x. x \<noteq> CHR ''>'') (CHR ''>'' # pad)"
    by (rule takeWhile_append2) (use ag in \<open>auto simp: mid_def split: if_splits\<close>)
  then have tm: "takeWhile (\<lambda>x. x \<noteq> CHR ''>'') rest = mid" by (simp add: rest_def)
  have "s @ rest \<noteq> []" "is_tagchar (hd (s @ rest))" using sne hd_tag by auto
  from match_open_tag_here[OF this] have mt: "match_open_tag body = Some (s, mid)"
    unfolding body_def tws dws r0 tm by simp
  have "trim (CHR '' '' # ?a) = trim ?a"
    using trim_ws_append[of "'' ''" ?a] by (simp add: is_ws_def)
  then have tmid: "trim mid = ?a" using ta by (simp add: mid_def)
  have pr: "parse_raw body = Inr (Some s, None, ?a)"
    using op mt tmid by (simp add: parse_raw_def)
  show ?thesis
    unfolding tl node_of_line_eq[OF bne pr] using bne op s bhd by simp
qed

lemma reparse_close:
  assumes "s \<noteq> []" and ln: "ln = indent d @ ''</'' @ s @ ''>''"
  shows "trim ln \<noteq> [] \<and> \<not> isOpen (Some (trim ln)) \<and> isClose (Some (trim ln))
     \<and> hd (trim ln) = CHR ''<''"
proof -
  define body where "body = CHR ''<'' # CHR ''/'' # s @ ''>''"
  have "trim ln = trim body" unfolding ln body_def
    using trim_ws_append[OF indent_ws, of d "''</'' @ s @ ''>''"] by simp
  also have "\<dots> = body" by (intro trim_id) (auto simp: body_def is_ws_def)
  finally have tl: "trim ln = body" .
  show ?thesis unfolding tl
    by (auto simp: body_def isOpen_def isClose_def match_open_def match_close_def is_sptab_def
        startsWith_def)
qed

lemma reparse_com:
  assumes "com_ok f" and "truthy (suffix f)" and ln: "ln = indent d @ the (suffix f)"
  shows "trim ln \<noteq> [] \<and> \<not> isOpen (Some (trim ln)) \<and> \<not> isClose (Some (trim ln))
     \<and> cmd (fields_of (node_of_line pth i (trim ln))) = None
     \<and> section_name (fields_of (node_of_line pth i (trim ln))) = None
     \<and> hd (trim ln) = CHR ''#''"
proof -
  from assms(1,2) obtain sfx where sf: "suffix f = Some sfx" and sne: "sfx \<noteq> []"
    and sh: "hd sfx = CHR ''#''" and sl: "\<not> is_ws (last sfx)" and nc: "no_close sfx"
    by (auto simp: com_ok_def sfx_ok_def truthy_def split: option.splits)
  have hws: "\<not> is_ws (hd sfx)" using sh by (simp add: is_ws_def)
  have "trim ln = trim sfx" unfolding ln sf using trim_ws_append[OF indent_ws] by simp
  also have "\<dots> = sfx" using sne hws sl by (rule trim_id)
  finally have tl: "trim ln = sfx" .
  have no: "\<not> isOpen (Some sfx)" using sne hws sh by (intro isOpen_hd) auto
  have tw: "takeWhile (\<lambda>x. x \<noteq> CHR ''#'') sfx = []" using sne sh by (cases sfx) auto
  have pr: "parse_raw sfx = Inr (None, None, [])"
    using no isClose_no_close[OF nc] by (simp add: parse_raw_def hd_split_on tw)
  show ?thesis
    unfolding tl node_of_line_eq[OF sne pr] using sne no isClose_no_close[OF nc] sh by simp
qed

section \<open>The parser makes trees that can be printed\<close>

lemma open_ok_parsed: "open_ok n \<Longrightarrow> parsed_ok n"
  by (cases n) (auto simp: open_ok_def)

lemma open_ok_add_child: "open_ok p \<Longrightarrow> parsed_ok c \<Longrightarrow> open_ok (add_child p c)"
  by (simp add: open_ok_def add_child_def)

lemma collapse_parsed: "open_ok s \<Longrightarrow> list_all open_ok ss \<Longrightarrow> parsed_ok (collapse s ss)"
  by (induction ss arbitrary: s) (auto simp: open_ok_parsed open_ok_add_child)

lemma root_content_parsed: "state_ok st \<Longrightarrow> list_all parsed_ok (root_content st)"
  by (auto simp: state_ok_def root_content_def collapse_parsed split: cursor.splits list.splits)

lemma add_node_ok: "state_ok st \<Longrightarrow> parsed_ok n \<Longrightarrow> state_ok (add_node n st)"
  by (auto simp: state_ok_def add_node_def open_ok_add_child split: cursor.splits list.splits)

lemma move_up_ok: "state_ok st \<Longrightarrow> state_ok (move_up st)"
  by (auto simp: state_ok_def move_up_def open_ok_add_child open_ok_parsed
      split: cursor.splits list.splits)

lemma open_section_ok: "state_ok st \<Longrightarrow> open_ok n \<Longrightarrow> state_ok (open_section n st)"
  by (auto simp: state_ok_def open_section_def split: cursor.splits)

lemma extend_root_ok: "state_ok st \<Longrightarrow> list_all parsed_ok ns \<Longrightarrow> state_ok (extend_root ns st)"
  by (auto simp: state_ok_def extend_root_def split: cursor.splits list.splits)

lemma state_ok_console [simp]: "state_ok (st\<lparr>console := c\<rparr>) = state_ok st"
  by (simp add: state_ok_def)

lemma init_state_ok: "state_ok (init_state con)"
  by (simp add: state_ok_def init_state_def)

lemma place_ok:
  assumes "l \<noteq> []" and "trim l = l" and "CHR 0x0A \<notin> set l" and "state_ok st"
  shows "state_ok (place (node_of_line pth i l) st)"
proof -
  let ?n = "node_of_line pth i l"
  have r: "raw (fields_of ?n) = Some l" "content ?n = []" using node_of_line_raw by auto
  show ?thesis
  proof (cases "isOpen (Some l)")
    case True
    have "open_ok ?n" using open_line_kind[OF assms(1,2,3) True] r
      by (simp add: open_ok_def)
    then show ?thesis using True r assms(4) by (simp add: place_def open_section_ok)
  next
    case False
    show ?thesis
    proof (cases "isClose (Some l)")
      case True
      then show ?thesis using False r assms(4) by (simp add: place_def move_up_ok)
    next
      case c: False
      have "parsed_ok ?n"
        using other_line_ok[OF assms(1,2,3) False c, of pth i] r by (cases ?n) auto
      then show ?thesis using False c r assms(4) by (simp add: place_def add_node_ok)
    qed
  qed
qed

lemma include_files_ok:
  assumes "\<And>p c sub. rd p c = Done sub \<Longrightarrow> list_all parsed_ok (root_content sub)"
    and "state_ok st" and "include_files rd l ms st = Done st'"
  shows "state_ok st'"
  using assms(2,3)
proof (induction ms arbitrary: st)
  case Nil
  then show ?case by simp
next
  case (Cons p ps)
  show ?case
  proof (cases "rd p (console st)")
    case OutOfFuel
    then show ?thesis using Cons.prems by simp
  next
    case (Threw err con)
    then show ?thesis using Cons.prems by (auto intro!: Cons.IH[rotated])
  next
    case (Done sub)
    have "state_ok (extend_root (root_content sub) (st\<lparr>console := console sub\<rparr>))"
      using Cons.prems(1) assms(1)[OF Done] by (simp add: extend_root_ok)
    then show ?thesis using Cons.prems(2) Done by (auto intro: Cons.IH)
  qed
qed

lemma read_lines_ok:
  assumes "\<And>p c sub. inc \<Longrightarrow> rd p c = Done sub \<Longrightarrow> list_all parsed_ok (root_content sub)"
    and "\<forall>ln\<in>set lns. CHR 0x0A \<notin> set ln" and "state_ok st"
    and "read_lines rd matches pth inc lns i st = Done st'"
  shows "state_ok st'"
  using assms(2,3,4)
proof (induction lns arbitrary: i st)
  case Nil
  then show ?case by simp
next
  case (Cons ln lns)
  have rest: "\<forall>ln\<in>set lns. CHR 0x0A \<notin> set ln" using Cons.prems(1) by simp
  show ?case
  proof (cases "trim ln = []")
    case True
    then have "read_lines rd matches pth inc lns (i + 1) st = Done st'"
      using Cons.prems(3) by simp
    from Cons.IH[OF rest Cons.prems(2) this] show ?thesis .
  next
    case False
    let ?n = "node_of_line pth (i + 1) (trim ln)"
    have "CHR 0x0A \<notin> set (trim ln)" using Cons.prems(1) set_trim[of ln] by auto
    then have ok1: "state_ok (place ?n st)"
      using False Cons.prems(2) by (intro place_ok) simp_all
    show ?thesis
    proof (cases "inc \<and> is_include ?n")
      case f: False
      then have "read_lines rd matches pth inc lns (i + 1) (place ?n st) = Done st'"
        using Cons.prems(3) False by (auto simp: Let_def node_of_line_new)
      from Cons.IH[OF rest ok1 this] show ?thesis .
    next
      case True
      then obtain ms st2 where
        i2: "include_files rd (trim ln) ms (place ?n st) = Done st2"
        and r2: "read_lines rd matches pth inc lns (i + 1) st2 = Done st'"
        using Cons.prems(3) False
        by (auto simp: Let_def node_of_line_new split: sum.splits result.splits)
      have "state_ok st2"
        by (rule include_files_ok[OF _ ok1 i2]) (use True assms(1) in blast)
      from Cons.IH[OF rest this r2] show ?thesis .
    qed
  qed
qed

lemma readFile_ok:
  "holds_lines e \<Longrightarrow> readFile k e inc p c = Done sub \<Longrightarrow> list_all parsed_ok (root_content sub)"
proof (induction k arbitrary: inc p c sub)
  case 0
  then show ?case by simp
next
  case (Suc k)
  from Suc.prems(2) obtain lns where l: "read_stream e p = Inr lns"
    and r: "read_lines (\<lambda>p c. readFile k e True p c) (file_matches e p) (Some p) inc lns 0
              (init_state c) = Done sub"
    by (auto split: sum.splits)
  have "fs e p = Some (File lns)"
    using l by (auto simp: read_stream_def split: option.splits entry.splits)
  then have free: "\<forall>ln\<in>set lns. CHR 0x0A \<notin> set ln"
    using Suc.prems(1) by (auto simp: holds_lines_def)
  have "state_ok sub"
    by (rule read_lines_ok[OF _ free init_state_ok r]) (use Suc.IH[OF Suc.prems(1)] in blast)
  then show ?case by (rule root_content_parsed)
qed

lemma parsed_printable: "parsed_ok n \<Longrightarrow> slash_free n \<Longrightarrow> printable n"
proof (induction n)
  case (Node f cs)
  show ?case
  proof (cases "dir_ok f")
    case True
    then show ?thesis by simp
  next
    case False
    then have k: "sec_kind f \<or> com_ok f" and pc: "list_all parsed_ok cs"
      using Node.prems(1) by auto
    then have cn: "cmd f = None" by (auto simp: sec_kind_def com_ok_def)
    then have sf: "\<not> truthy (section_name f) \<or> \<not> startsWith (the (section_name f)) ''/''"
      and sc: "list_all slash_free cs"
      using Node.prems(2) by (auto simp: truthy_def)
    have kids: "list_all printable cs"
      using Node.IH pc sc by (auto simp: list_all_iff)
    from k show ?thesis
    proof
      assume s: "sec_kind f"
      then obtain s' where s': "section_name f = Some s'" "s' \<noteq> []"
        by (auto simp: sec_kind_def split: option.splits)
      then have "hd s' \<noteq> CHR ''/''" using sf by (cases s') (auto simp: truthy_def startsWith_def)
      then show ?thesis using s s' kids by (simp add: sec_ok_def)
    next
      assume "com_ok f"
      then show ?thesis using kids by simp
    qed
  qed
qed

section \<open>Reading a dump back\<close>

lemma skels_append [simp]: "skels (xs @ ys) = skels xs @ skels ys"
  by (induction xs) (auto simp del: skel_of.simps)

lemma add_nodes_append: "add_nodes (xs @ ys) st = add_nodes ys (add_nodes xs st)"
  by (induction xs arbitrary: st) auto

lemma add_node_attached:
  "cur st = Attached ss \<Longrightarrow> after_open st = [] \<Longrightarrow>
     (\<exists>ss'. cur (add_node n st) = Attached ss') \<and> after_open (add_node n st) = []"
  by (auto simp: add_node_def split: list.splits)

lemma add_nodes_attached:
  "cur st = Attached ss \<Longrightarrow> after_open st = [] \<Longrightarrow>
     (\<exists>ss'. cur (add_nodes ns st) = Attached ss') \<and> after_open (add_nodes ns st) = []"
proof (induction ns arbitrary: st ss)
  case Nil
  then show ?case by simp
next
  case (Cons n ns)
  from add_node_attached[OF Cons.prems, of n] obtain ss' where
    "cur (add_node n st) = Attached ss'" "after_open (add_node n st) = []" by blast
  from Cons.IH[OF this] show ?case by simp
qed

lemma add_nodes_top:
  "cur st = Attached (s # ss) \<Longrightarrow>
     add_nodes ns st = st\<lparr>cur := Attached (Node (fields_of s) (content s @ ns) # ss)\<rparr>"
proof (induction ns arbitrary: st s)
  case Nil
  then show ?case by simp
next
  case (Cons n ns)
  have "cur (add_node n st) = Attached (add_child s n # ss)"
    using Cons.prems by (simp add: add_node_def)
  from Cons.IH[OF this] show ?case using Cons.prems
    by (simp add: add_node_def add_child_def)
qed

lemma move_up_closes:
  "cur st = Attached ss \<Longrightarrow> after_open st = [] \<Longrightarrow>
     move_up (st\<lparr>cur := Attached (n # ss)\<rparr>) = add_node n st"
  by (cases ss) (auto simp: move_up_def add_node_def)

lemma step_line:
  "trim ln \<noteq> [] \<Longrightarrow>
     steps pth (ln # rest) i st = steps pth rest (i + 1) (place (node_of_line pth (i + 1) (trim ln)) st)"
  by simp

lemma reparse_list:
  assumes "\<And>n d rest i st ss. n \<in> set ns \<Longrightarrow> printable n \<Longrightarrow> cur st = Attached ss
      \<Longrightarrow> after_open st = [] \<Longrightarrow>
        \<exists>ns'. skels ns' = skel_of n
          \<and> steps pth (dlines d n @ rest) i st
              = steps pth rest (i + length (dlines d n)) (add_nodes ns' st)"
    and "list_all printable ns" and "cur st = Attached ss" and "after_open st = []"
  shows "\<exists>ns'. skels ns' = skels ns
          \<and> steps pth (dlines_all d ns @ rest) i st
              = steps pth rest (i + length (dlines_all d ns)) (add_nodes ns' st)"
  using assms
proof (induction ns arbitrary: i st ss)
  case Nil
  show ?case by (rule exI[of _ "[]"]) simp
next
  case (Cons n ns)
  have pn: "printable n" and pns: "list_all printable ns" using Cons.prems(2) by auto
  from Cons.prems(1)[OF _ pn Cons.prems(3,4), of d "dlines_all d ns @ rest" i]
  obtain n' where n': "skels n' = skel_of n"
    "steps pth (dlines d n @ dlines_all d ns @ rest) i st
       = steps pth (dlines_all d ns @ rest) (i + length (dlines d n)) (add_nodes n' st)"
    by auto
  from add_nodes_attached[OF Cons.prems(3,4), of n'] obtain ss' where
    a: "cur (add_nodes n' st) = Attached ss'" "after_open (add_nodes n' st) = []" by blast
  have "\<exists>ns'. skels ns' = skels ns
          \<and> steps pth (dlines_all d ns @ rest) (i + length (dlines d n)) (add_nodes n' st)
              = steps pth rest (i + length (dlines d n) + length (dlines_all d ns))
                  (add_nodes ns' (add_nodes n' st))"
    by (rule Cons.IH[OF _ pns a]) (use Cons.prems(1) in auto)
  then obtain ns' where ns': "skels ns' = skels ns"
    "steps pth (dlines_all d ns @ rest) (i + length (dlines d n)) (add_nodes n' st)
       = steps pth rest (i + length (dlines d n) + length (dlines_all d ns))
           (add_nodes ns' (add_nodes n' st))"
    by blast
  show ?case
    by (rule exI[of _ "n' @ ns'"])
       (simp add: n' ns' add_nodes_append add.assoc del: dlines.simps skel_of.simps)
qed

lemma reparse_node:
  assumes "printable n" and "cur st = Attached ss" and "after_open st = []"
  shows "\<exists>ns'. skels ns' = skel_of n
          \<and> steps pth (dlines d n @ rest) i st
              = steps pth rest (i + length (dlines d n)) (add_nodes ns' st)"
  using assms
proof (induction n arbitrary: d rest i st ss)
  case (Node f cs)
  from Node.prems(1) consider (dir) "dir_ok f" | (sec) "sec_ok f" "list_all printable cs"
    | (com) "com_ok f" "list_all printable cs" by auto
  then show ?case
  proof cases
    case dir
    then obtain c where c: "cmd f = Some c" "c \<noteq> []"
      by (auto simp: dir_ok_def split: option.splits)
    define ln where "ln = indent d @ the (cmd f) @ '' '' @ args f @ padded f"
    define n1 where "n1 = node_of_line pth (i + 1) (trim ln)"
    from reparse_dir[OF dir ln_def, of pth "i + 1"] have
      r: "trim ln \<noteq> []" "\<not> isOpen (Some (trim ln))" "\<not> isClose (Some (trim ln))"
         "cmd (fields_of n1) = cmd f" "args (fields_of n1) = args f"
      by (auto simp: n1_def)
    have raw1: "raw (fields_of n1) = Some (trim ln)" "content n1 = []"
      using node_of_line_raw by (auto simp: n1_def)
    have dl: "dlines d (Node f cs) = [ln]" using c by (simp add: truthy_def ln_def)
    have pl: "place n1 st = add_node n1 st" using r raw1 by (simp add: place_def)
    have sk: "skel_of n1 = skel_of (Node f cs)"
      using r c by (cases n1) (simp add: truthy_def)
    show ?thesis
      apply (rule exI[of _ "[n1]"])
      unfolding dl using r(1) pl sk by (simp add: n1_def del: skel_of.simps)
  next
    case sec
    then obtain s where s: "cmd f = None" "section_name f = Some s" "s \<noteq> []"
      by (auto simp: sec_ok_def sec_kind_def split: option.splits)
    define ln where "ln = indent d @ ''<'' @ the (section_name f)
           @ (if args f \<noteq> [] then '' '' @ args f else []) @ ''>'' @ padded f"
    define cl where "cl = indent d @ ''</'' @ s @ ''>''"
    define n1 where "n1 = node_of_line pth (i + 1) (trim ln)"
    from reparse_open[OF sec(1) ln_def, of pth "i + 1"] have
      r: "trim ln \<noteq> []" "isOpen (Some (trim ln))" "cmd (fields_of n1) = None"
         "section_name (fields_of n1) = section_name f" "args (fields_of n1) = args f"
      by (auto simp: n1_def)
    have raw1: "raw (fields_of n1) = Some (trim ln)" "content n1 = []"
      using node_of_line_raw by (auto simp: n1_def)
    have dl: "dlines d (Node f cs) = ln # dlines_all (d + 1) cs @ [cl]"
      using s by (simp add: truthy_def ln_def cl_def)
    define st1 where "st1 = st\<lparr>cur := Attached (n1 # ss)\<rparr>"
    have pl: "place n1 st = st1"
      using r raw1 Node.prems(2) by (simp add: place_def open_section_def st1_def)
    have c1: "cur st1 = Attached (n1 # ss)" "after_open st1 = []"
      using Node.prems(3) by (simp_all add: st1_def)
    have "\<exists>ns'. skels ns' = skels cs
          \<and> steps pth (dlines_all (d + 1) cs @ cl # rest) (i + 1) st1
              = steps pth (cl # rest) (i + 1 + length (dlines_all (d + 1) cs)) (add_nodes ns' st1)"
      by (rule reparse_list[OF _ sec(2) c1]) (use Node.IH in blast)
    then obtain cs' where cs': "skels cs' = skels cs"
      "steps pth (dlines_all (d + 1) cs @ cl # rest) (i + 1) st1
         = steps pth (cl # rest) (i + 1 + length (dlines_all (d + 1) cs)) (add_nodes cs' st1)"
      by blast
    define n1' where "n1' = Node (fields_of n1) cs'"
    have top: "add_nodes cs' st1 = st\<lparr>cur := Attached (n1' # ss)\<rparr>"
      using add_nodes_top[OF c1(1), of cs'] raw1 by (simp add: st1_def n1'_def)
    define j where "j = i + 1 + length (dlines_all (d + 1) cs)"
    define n2 where "n2 = node_of_line pth (j + 1) (trim cl)"
    from reparse_close[OF s(3) cl_def] have
      rc: "trim cl \<noteq> []" "\<not> isOpen (Some (trim cl))" "isClose (Some (trim cl))" by auto
    have raw2: "raw (fields_of n2) = Some (trim cl)" using node_of_line_raw by (simp add: n2_def)
    have pl2: "place n2 (st\<lparr>cur := Attached (n1' # ss)\<rparr>) = add_node n1' st"
      using rc raw2 move_up_closes[OF Node.prems(2,3)] by (simp add: place_def)
    have sk: "skel_of n1' = skel_of (Node f cs)"
      using r s cs' by (simp add: n1'_def truthy_def)
    have "steps pth (dlines d (Node f cs) @ rest) i st
        = steps pth (dlines_all (d + 1) cs @ cl # rest) (i + 1) st1"
      unfolding dl using r(1) pl by (simp add: n1_def)
    also have "\<dots> = steps pth (cl # rest) j (st\<lparr>cur := Attached (n1' # ss)\<rparr>)"
      unfolding cs'(2) top j_def ..
    also have "\<dots> = steps pth rest (j + 1) (add_node n1' st)"
      using rc(1) pl2 by (simp add: n2_def)
    finally have "steps pth (dlines d (Node f cs) @ rest) i st
        = steps pth rest (i + length (dlines d (Node f cs))) (add_nodes [n1'] st)"
      unfolding dl j_def by (simp add: add.commute add.left_commute)
    then show ?thesis using sk by (intro exI[of _ "[n1']"]) (simp del: skel_of.simps dlines.simps)
  next
    case com
    then have cn: "cmd f = None" "section_name f = None" by (auto simp: com_ok_def)
    have sk0: "skel_of (Node f cs) = skels cs" using cn by (simp add: truthy_def)
    define own where "own = (if truthy (suffix f) then [indent d @ the (suffix f)]
                             else if truthy (raw f) then [[]] else [])"
    have dl: "dlines d (Node f cs) = own @ dlines_all d cs"
      using cn by (simp add: truthy_def own_def)
    have "\<exists>own'. skels own' = []
            \<and> (\<forall>R. steps pth (own @ R) i st = steps pth R (i + length own) (add_nodes own' st))"
    proof (cases "truthy (suffix f)")
      case True
      define ln where "ln = indent d @ the (suffix f)"
      define n1 where "n1 = node_of_line pth (i + 1) (trim ln)"
      from reparse_com[OF com(1) True ln_def, of pth "i + 1"] have
        r: "trim ln \<noteq> []" "\<not> isOpen (Some (trim ln))" "\<not> isClose (Some (trim ln))"
           "cmd (fields_of n1) = None" "section_name (fields_of n1) = None"
        by (auto simp: n1_def)
      have raw1: "raw (fields_of n1) = Some (trim ln)" "content n1 = []"
        using node_of_line_raw by (auto simp: n1_def)
      have o: "own = [ln]" using True by (simp add: own_def ln_def)
      have pl: "place n1 st = add_node n1 st" using r raw1 by (simp add: place_def)
      have sk: "skel_of n1 = []" using r raw1 by (cases n1) (simp add: truthy_def)
      show ?thesis
        apply (rule exI[of _ "[n1]"])
        unfolding o using r(1) pl sk by (simp add: n1_def del: skel_of.simps)
    next
      case False
      have o: "own = (if truthy (raw f) then [[]] else [])" using False by (simp add: own_def)
      show ?thesis
        apply (rule exI[of _ "[]"])
        unfolding o by simp
    qed
    then obtain own' where own': "skels own' = []"
      "\<And>R. steps pth (own @ R) i st = steps pth R (i + length own) (add_nodes own' st)"
      by blast
    define st1 where "st1 = add_nodes own' st"
    from add_nodes_attached[OF Node.prems(2,3), of own'] obtain ss1 where
      c1: "cur st1 = Attached ss1" "after_open st1 = []" by (auto simp: st1_def)
    have "\<exists>ns'. skels ns' = skels cs
          \<and> steps pth (dlines_all d cs @ rest) (i + length own) st1
              = steps pth rest (i + length own + length (dlines_all d cs)) (add_nodes ns' st1)"
      by (rule reparse_list[OF _ com(2) c1]) (use Node.IH in blast)
    then obtain cs' where cs': "skels cs' = skels cs"
      "steps pth (dlines_all d cs @ rest) (i + length own) st1
         = steps pth rest (i + length own + length (dlines_all d cs)) (add_nodes cs' st1)"
      by blast
    have "steps pth (dlines d (Node f cs) @ rest) i st
        = steps pth rest (i + length (dlines d (Node f cs))) (add_nodes (own' @ cs') st)"
      unfolding dl append_assoc own'(2) st1_def[symmetric] cs'(2)
      by (simp add: add_nodes_append st1_def add.assoc)
    moreover have "skels (own' @ cs') = skel_of (Node f cs)"
      unfolding sk0 using own'(1) cs'(1) by simp
    ultimately show ?thesis by blast
  qed
qed

lemma add_nodes_root:
  "cur st = Attached [] \<Longrightarrow> after_open st = [] \<Longrightarrow>
     add_nodes ns st = st\<lparr>before_open := before_open st @ ns\<rparr>"
  by (induction ns arbitrary: st) (auto simp: add_node_def)

section \<open>Lines of a dump that read files\<close>

lemma node_of_line_name: "l \<noteq> [] \<Longrightarrow> name (fields_of (node_of_line pth i l)) = guess_name l"
proof -
  assume l: "l \<noteq> []"
  obtain sec c a where "parse_raw l = Inr (sec, c, a)"
    using parse_raw_total[of l] by (metis prod_cases3)
  from node_of_line_eq[OF l this] show ?thesis by simp
qed

lemma guess_name_hd:
  assumes "l \<noteq> []" and "trim l = l"
  shows "guess_name l \<noteq> [] \<and> hd (guess_name l) = hd l"
proof -
  have "\<not> is_ws (hd l)" using trim_hd[of l] assms by simp
  then have "hd l \<noteq> CHR '' ''" by (auto simp: is_ws_def)
  then have "takeWhile (\<lambda>x. x \<noteq> CHR '' '') l \<noteq> [] \<and> hd (takeWhile (\<lambda>x. x \<noteq> CHR '' '') l) = hd l"
    using assms(1) by (cases l) auto
  then show ?thesis by (auto simp: guess_name_def hd_split_on assms(2) Let_def)
qed

lemma not_include_hd:
  assumes "l \<noteq> []" and "trim l = l" and "hd l = CHR ''<'' \<or> hd l = CHR ''#''"
  shows "\<not> is_include (node_of_line pth i l)"
proof -
  from guess_name_hd[OF assms(1,2)] obtain r where g: "guess_name l = hd l # r"
    by (cases "guess_name l") auto
  have "lower_char (hd l) \<noteq> CHR ''i''"
    using assms(3) by (auto simp: lower_char_def Let_def)
  then show ?thesis
    unfolding is_include_def node_of_line_name[OF assms(1)] g by (auto simp: toLowerCase_def)
qed

lemma dlines_all_include:
  assumes "\<And>c d. c \<in> set cs \<Longrightarrow> printable c \<Longrightarrow> ln \<in> set (dlines d c)
      \<Longrightarrow> args (fields_of (node_of_line pth j (trim ln))) \<in> set (include_args c)"
    and "list_all printable cs" and "ln \<in> set (dlines_all d cs)"
  shows "args (fields_of (node_of_line pth j (trim ln))) \<in> set (include_args_all cs)"
  using assms by (induction cs) (auto simp del: dlines.simps include_args.simps)

lemma dlines_include:
  assumes "printable n" and "ln \<in> set (dlines d n)" and "trim ln \<noteq> []"
    and "is_include (node_of_line pth j (trim ln))"
  shows "args (fields_of (node_of_line pth j (trim ln))) \<in> set (include_args n)"
  using assms(1,2)
proof (induction n arbitrary: d)
  case (Node f cs)
  have kids: "list_all printable cs \<Longrightarrow> ln \<in> set (dlines_all d' cs) \<Longrightarrow>
      args (fields_of (node_of_line pth j (trim ln))) \<in> set (include_args_all cs)" for d'
    by (rule dlines_all_include[where d = d']) (use Node.IH in auto)
  have no: "hd (trim ln) = CHR ''<'' \<or> hd (trim ln) = CHR ''#'' \<Longrightarrow> False"
    using not_include_hd[OF assms(3), of pth j] assms(4) by simp
  from Node.prems(1) consider (dir) "dir_ok f" | (sec) "sec_ok f" "list_all printable cs"
    | (com) "com_ok f" "list_all printable cs" by auto
  then show ?case
  proof cases
    case dir
    then obtain c where c: "cmd f = Some c" "c \<noteq> []"
      by (auto simp: dir_ok_def split: option.splits)
    have ln: "ln = indent d @ the (cmd f) @ '' '' @ args f @ padded f"
      using Node.prems(2) c by (simp add: truthy_def)
    from reparse_dir[OF dir ln, of pth j] have
      "args (fields_of (node_of_line pth j (trim ln))) = args f"
      "name (fields_of (node_of_line pth j (trim ln))) = c" using c by auto
    then show ?thesis using assms(4) c
      by (simp add: is_include_def include_name_def truthy_def)
  next
    case sec
    then obtain s where s: "cmd f = None" "section_name f = Some s" "s \<noteq> []"
      by (auto simp: sec_ok_def sec_kind_def split: option.splits)
    from Node.prems(2) s consider
      (a) "ln = indent d @ ''<'' @ the (section_name f)
             @ (if args f \<noteq> [] then '' '' @ args f else []) @ ''>'' @ padded f"
      | (b) "ln \<in> set (dlines_all (d + 1) cs)"
      | (c) "ln = indent d @ ''</'' @ s @ ''>''"
      by (auto simp: truthy_def)
    then show ?thesis
    proof cases
      case a
      from reparse_open[OF sec(1) a, of pth j] no show ?thesis by blast
    next
      case b
      from kids[OF sec(2) b] show ?thesis using s by (simp add: truthy_def)
    next
      case c
      from reparse_close[OF s(3) c] no show ?thesis by blast
    qed
  next
    case com
    then have cn: "cmd f = None" "section_name f = None" by (auto simp: com_ok_def)
    from Node.prems(2) cn consider
      (a) "truthy (suffix f)" "ln = indent d @ the (suffix f)"
      | (b) "ln = []"
      | (c) "ln \<in> set (dlines_all d cs)"
      by (auto simp: truthy_def split: if_splits)
    then show ?thesis
    proof cases
      case a
      from reparse_com[OF com(1) a, of pth j] no show ?thesis by blast
    next
      case b
      then show ?thesis using assms(3) by simp
    next
      case c
      from kids[OF com(2) c] show ?thesis using cn by (simp add: truthy_def)
    qed
  qed
qed

section \<open>Includes that add no directive and no section\<close>

lemma tidy_console [simp]: "tidy (st\<lparr>console := c\<rparr>) = tidy st"
  by (simp add: tidy_def split: cursor.splits list.splits)

lemma sim_console: "sim st1 st2 \<Longrightarrow> sim (st1\<lparr>console := c\<rparr>) st2"
  by (simp add: sim_def)

lemma sim_refl: "tidy st \<Longrightarrow> sim st st"
  by (simp add: sim_def)

lemma add_node_sim: "sim st1 st2 \<Longrightarrow> sim (add_node n st1) (add_node n st2)"
  by (auto simp: sim_def tidy_def add_node_def split: cursor.splits list.splits)

lemma open_section_sim: "sim st1 st2 \<Longrightarrow> sim (open_section n st1) (open_section n st2)"
  by (auto simp: sim_def tidy_def open_section_def split: cursor.splits list.splits)

lemma move_up_sim: "sim st1 st2 \<Longrightarrow> sim (move_up st1) (move_up st2)"
  by (auto simp: sim_def tidy_def move_up_def split: cursor.splits list.splits)

lemma place_sim: "sim st1 st2 \<Longrightarrow> sim (place n st1) (place n st2)"
  by (simp add: place_def add_node_sim open_section_sim move_up_sim)

lemma extend_root_sim: "sim st1 st2 \<Longrightarrow> skels ns = [] \<Longrightarrow> sim (extend_root ns st1) st2"
  by (auto simp: sim_def tidy_def extend_root_def split: cursor.splits list.splits)

lemma sim_root_content: "sim st1 st2 \<Longrightarrow> skels (root_content st1) = skels (root_content st2)"
  by (auto simp: sim_def root_content_def split: cursor.splits list.splits)

lemma include_files_sim:
  assumes "\<forall>p\<in>set ms. quiet_read rd p" and "sim st1 st2"
  shows "\<exists>st'. include_files rd l ms st1 = Done st' \<and> sim st' st2"
  using assms
proof (induction ms arbitrary: st1)
  case Nil
  then show ?case by simp
next
  case (Cons p ps)
  have q: "case rd p (console st1) of OutOfFuel \<Rightarrow> False | Threw err c \<Rightarrow> True
           | Done sub \<Rightarrow> skels (root_content sub) = []"
    using Cons.prems(1) by (simp add: quiet_read_def)
  have ps: "\<forall>p\<in>set ps. quiet_read rd p" using Cons.prems(1) by simp
  show ?case
  proof (cases "rd p (console st1)")
    case OutOfFuel
    then show ?thesis using q by simp
  next
    case (Threw err con)
    from Cons.IH[OF ps sim_console[OF Cons.prems(2)]] show ?thesis using Threw by simp
  next
    case (Done sub)
    then have "skels (root_content sub) = []" using q by simp
    from Cons.IH[OF ps extend_root_sim[OF sim_console[OF Cons.prems(2)] this]]
    show ?thesis using Done by simp
  qed
qed

lemma read_lines_sim:
  assumes "\<forall>ln\<in>set lns. \<forall>j. inc \<and> trim ln \<noteq> [] \<and> is_include (node_of_line pth j (trim ln))
      \<longrightarrow> quiet_args rd matches (args (fields_of (node_of_line pth j (trim ln))))"
    and "sim st1 st2"
  shows "\<exists>st'. read_lines rd matches pth inc lns i st1 = Done st' \<and> sim st' (steps pth lns i st2)"
  using assms
proof (induction lns arbitrary: i st1 st2)
  case Nil
  then show ?case by simp
next
  case (Cons ln lns)
  have rest: "\<forall>ln\<in>set lns. \<forall>j. inc \<and> trim ln \<noteq> [] \<and> is_include (node_of_line pth j (trim ln))
      \<longrightarrow> quiet_args rd matches (args (fields_of (node_of_line pth j (trim ln))))"
    using Cons.prems(1) by simp
  show ?case
  proof (cases "trim ln = []")
    case True
    from Cons.IH[OF rest Cons.prems(2), of "i + 1"] show ?thesis using True by simp
  next
    case False
    let ?n = "node_of_line pth (i + 1) (trim ln)"
    have s1: "sim (place ?n st1) (place ?n st2)" using Cons.prems(2) by (rule place_sim)
    show ?thesis
    proof (cases "inc \<and> is_include ?n")
      case f: False
      from Cons.IH[OF rest s1, of "i + 1"] show ?thesis
        using False f by (auto simp: Let_def node_of_line_new)
    next
      case True
      then have "quiet_args rd matches (args (fields_of ?n))"
        using Cons.prems(1) False by simp
      then obtain ms where ms: "matches (args (fields_of ?n)) = Inr ms"
        and q: "\<forall>p\<in>set ms. quiet_read rd p"
        by (auto simp: quiet_args_def split: sum.splits)
      from include_files_sim[OF q s1, of "trim ln"] obtain st2' where
        i2: "include_files rd (trim ln) ms (place ?n st1) = Done st2'"
        and s2: "sim st2' (place ?n st2)" by blast
      from Cons.IH[OF rest s2, of "i + 1"] show ?thesis
        using False True ms i2 by (auto simp: Let_def node_of_line_new)
    qed
  qed
qed

section \<open>The round trip\<close>

lemma new_root:
  "new_Node (default_props\<lparr>props_includes := inc\<rparr>) =
     Inr (Node \<lparr>raw = None, name = ''#root'', path = None, line = None, includes_flag = inc,
                section_name = None, cmd = None, args = [], suffix = None\<rparr> [])"
  by (simp add: new_Node_def new_fields_def default_props_def truthy_def)

lemma fromText_root:
  "fromText k e tx (default_props\<lparr>props_includes := inc\<rparr>) =
     (case readText k e inc tx [] of
        OutOfFuel \<Rightarrow> OutOfFuel
      | Threw err con \<Rightarrow> Threw err con
      | Done st \<Rightarrow>
          Done (Node \<lparr>raw = None, name = ''#root'', path = None, line = None, includes_flag = inc,
                      section_name = None, cmd = None, args = [], suffix = None\<rparr>
                  (root_content st), console st))"
  by (simp add: fromText_def new_root split: result.splits)

lemma dump_root:
  assumes "list_all printable ns"
  shows "dump (Node \<lparr>raw = None, name = ''#root'', path = None, line = None,
                     includes_flag = inc, section_name = None, cmd = None, args = [],
                     suffix = None\<rparr> ns) 0
           = Inr (unlines (dlines_all 0 ns))"
proof -
  have "dump_all ns (int 0) = Inr (unlines (dlines_all 0 ns))"
    by (rule dump_all_printable[OF _ assms]) (rule dump_printable)
  then show ?thesis by (simp add: truthy_def children_length_def)
qed

lemma place_console: "place n (st\<lparr>console := c\<rparr>) = (place n st)\<lparr>console := c\<rparr>"
  by (auto simp: place_def add_node_def open_section_def move_up_def
      split: cursor.splits list.splits)

lemma steps_console: "steps pth lns i (st\<lparr>console := c\<rparr>) = (steps pth lns i st)\<lparr>console := c\<rparr>"
  by (induction lns arbitrary: i st) (simp_all add: place_console)

lemma reread_dump:
  assumes pn: "list_all printable ns"
    and q: "inc \<longrightarrow> (\<forall>a\<in>set (include_args_all ns). quiet_args rd matches a)"
  shows "\<exists>st'. read_lines rd matches None inc (dlines_all 0 ns @ [[]]) 0 (init_state []) = Done st'
           \<and> skels (root_content st') = skels ns"
proof -
  define ls where "ls = dlines_all 0 ns"
  have c0: "cur (init_state []) = Attached []" "after_open (init_state []) = []"
    by (simp_all add: init_state_def)
  have "\<exists>ns'. skels ns' = skels ns
          \<and> steps None (dlines_all 0 ns @ [[]]) 0 (init_state [])
              = steps None [[]] (0 + length (dlines_all 0 ns)) (add_nodes ns' (init_state []))"
    by (rule reparse_list[OF _ pn c0]) (rule reparse_node)
  then obtain ns' where ns': "skels ns' = skels ns"
    "steps None (ls @ [[]]) 0 (init_state []) = add_nodes ns' (init_state [])"
    by (auto simp: ls_def)
  have rc: "root_content (add_nodes ns' (init_state [])) = ns'"
    unfolding add_nodes_root[OF c0] by (simp add: root_content_def init_state_def)
  have quiet: "\<forall>ln\<in>set (ls @ [[]]). \<forall>j. inc \<and> trim ln \<noteq> [] \<and> is_include (node_of_line None j (trim ln))
      \<longrightarrow> quiet_args rd matches (args (fields_of (node_of_line None j (trim ln))))"
  proof (intro ballI allI impI)
    fix ln j
    assume ln: "ln \<in> set (ls @ [[]])"
      and a: "inc \<and> trim ln \<noteq> [] \<and> is_include (node_of_line None j (trim ln))"
    then have in0: "ln \<in> set (dlines_all 0 ns)" by (auto simp: ls_def)
    have "args (fields_of (node_of_line None j (trim ln))) \<in> set (include_args_all ns)"
      by (rule dlines_all_include[OF _ pn in0]) (use a dlines_include in blast)
    then show "quiet_args rd matches (args (fields_of (node_of_line None j (trim ln))))"
      using q a by blast
  qed
  have "tidy (init_state [])" by (simp add: tidy_def init_state_def)
  from read_lines_sim[OF quiet sim_refl[OF this], of 0] obtain st' where
    st': "read_lines rd matches None inc (ls @ [[]]) 0 (init_state []) = Done st'"
    "sim st' (steps None (ls @ [[]]) 0 (init_state []))" by blast
  from sim_root_content[OF st'(2)] have "skels (root_content st') = skels ns"
    unfolding ns'(2) rc using ns'(1) by simp
  then show ?thesis using st'(1) unfolding ls_def by blast
qed

lemma include_files_returns:
  "\<forall>p c. rd p c \<noteq> OutOfFuel \<Longrightarrow> \<exists>st'. include_files rd l ms st = Done st'"
  by (induction ms arbitrary: st) (auto split: result.splits)

lemma read_lines_returns:
  assumes "\<And>a. \<exists>ms. matches a = Inr ms" and "\<not> inc \<or> (\<forall>p c. rd p c \<noteq> OutOfFuel)"
  shows "\<exists>st'. read_lines rd matches pth inc lns i st = Done st'"
proof (induction lns arbitrary: i st)
  case Nil
  then show ?case by simp
next
  case (Cons ln lns)
  let ?n = "node_of_line pth (i + 1) (trim ln)"
  show ?case
  proof (cases "trim ln = []")
    case True
    from Cons.IH[of "i + 1" st] show ?thesis using True by simp
  next
    case ne: False
    show ?thesis
    proof (cases "inc \<and> is_include ?n")
      case False
      from Cons.IH[of "i + 1" "place ?n st"] show ?thesis
        using ne False by (auto simp: Let_def node_of_line_new)
    next
      case True
      obtain ms where ms: "matches (args (fields_of ?n)) = Inr ms" using assms(1) by blast
      from True assms(2) have "\<forall>p c. rd p c \<noteq> OutOfFuel" by blast
      from include_files_returns[OF this, of "trim ln" ms "place ?n st"] obtain st2 where
        i2: "include_files rd (trim ln) ms (place ?n st) = Done st2" by blast
      from Cons.IH[of "i + 1" st2] show ?thesis
        using ne True ms i2 by (simp add: Let_def node_of_line_new)
    qed
  qed
qed

text \<open>
  Claim C1, as the code has it. Let a text be parsed, with include resolution on or
  off, into a tree in which no section name begins with a slash. With include
  resolution on let, moreover, the files hold lines, and let every \<^verbatim>\<open>Include\<close> or
  \<^verbatim>\<open>IncludeOptional\<close> directive of the tree be quiet: the files that its argument
  resolves to, read from a text, throw or add no directive and no section. Then the
  tree can be dumped, the dump can be parsed in the same way, and the tree parsed from
  it has the same directives and sections, with the same names and arguments, nested in
  the same way. Every text is parsed into a tree when include resolution is off, and
  when no file is included more deeply than the model's bound on nested includes.
\<close>

theorem round_trip_quiet_includes:
  "(\<forall>t con. fromText k e tx (default_props\<lparr>props_includes := inc\<rparr>) = Done (t, con)
        \<and> slash_free t
        \<and> (inc \<longrightarrow> holds_lines e
               \<and> (\<forall>a\<in>set (include_args t). quiet_args (readFile k e True) (text_matches e) a))
      \<longrightarrow> (\<exists>s t' con'. dump t 0 = Inr s
             \<and> fromText k e s (default_props\<lparr>props_includes := inc\<rparr>) = Done (t', con')
             \<and> skel_of t' = skel_of t))
   \<and> (\<not> inc \<or> (\<forall>p c. readFile k e True p c \<noteq> OutOfFuel)
        \<longrightarrow> (\<exists>t con. fromText k e tx (default_props\<lparr>props_includes := inc\<rparr>) = Done (t, con)))"
proof (intro conjI allI impI)
  fix t con
  let ?rf = "\<lparr>raw = None, name = ''#root'', path = None, line = None, includes_flag = inc,
             section_name = None, cmd = None, args = [], suffix = None\<rparr>"
  let ?rd = "\<lambda>p c. readFile k e True p c"
  assume a: "fromText k e tx (default_props\<lparr>props_includes := inc\<rparr>) = Done (t, con)
        \<and> slash_free t
        \<and> (inc \<longrightarrow> holds_lines e
               \<and> (\<forall>a\<in>set (include_args t). quiet_args (readFile k e True) (text_matches e) a))"
  then obtain st where st: "readText k e inc tx [] = Done st"
    and t: "t = Node ?rf (root_content st)"
    by (auto simp: fromText_root split: result.splits)
  define ns where "ns = root_content st"
  have rl: "read_lines ?rd (text_matches e) None inc (split_on (CHR 0x0A) tx) 0 (init_state [])
              = Done st"
    using st by (simp add: readText_def)
  have free: "\<forall>ln\<in>set (split_on (CHR 0x0A) tx). CHR 0x0A \<notin> set ln"
    using split_on_free by blast
  have "state_ok st"
    by (rule read_lines_ok[OF _ free init_state_ok rl]) (use a readFile_ok in blast)
  then have "list_all parsed_ok ns" unfolding ns_def by (rule root_content_parsed)
  moreover have "list_all slash_free ns" using a t by (simp add: truthy_def ns_def)
  ultimately have pn: "list_all printable ns"
    by (auto simp: list_all_iff intro: parsed_printable)
  have d: "dump t 0 = Inr (unlines (dlines_all 0 ns))"
    unfolding t ns_def[symmetric] by (rule dump_root[OF pn])
  have "\<forall>l\<in>set (dlines_all 0 ns). CHR 0x0A \<notin> set l" using dlines_all_free[OF pn] by blast
  then have sp: "split_on (CHR 0x0A) (unlines (dlines_all 0 ns)) = dlines_all 0 ns @ [[]]"
    by (rule split_unlines)
  have ia: "include_args t = include_args_all ns" by (simp add: t truthy_def ns_def)
  have q: "inc \<longrightarrow> (\<forall>a\<in>set (include_args_all ns). quiet_args ?rd (text_matches e) a)"
    using a unfolding ia by blast
  from reread_dump[OF pn q] obtain st' where
    st': "read_lines ?rd (text_matches e) None inc (dlines_all 0 ns @ [[]]) 0 (init_state [])
            = Done st'"
    "skels (root_content st') = skels ns" by blast
  have t': "fromText k e (unlines (dlines_all 0 ns)) (default_props\<lparr>props_includes := inc\<rparr>)
      = Done (Node ?rf (root_content st'), console st')"
    by (simp add: fromText_root readText_def sp st'(1))
  have "skel_of (Node ?rf (root_content st')) = skel_of t"
    using st'(2) by (simp add: t truthy_def ns_def)
  then show "\<exists>s t' con'. dump t 0 = Inr s
             \<and> fromText k e s (default_props\<lparr>props_includes := inc\<rparr>) = Done (t', con')
             \<and> skel_of t' = skel_of t"
    using d t' by blast
next
  assume "\<not> inc \<or> (\<forall>p c. readFile k e True p c \<noteq> OutOfFuel)"
  then have "\<not> inc \<or> (\<forall>p c. (\<lambda>p c. readFile k e True p c) p c \<noteq> OutOfFuel)" by simp
  moreover have "\<And>a. \<exists>ms. text_matches e a = Inr ms" by (rule text_matches_total)
  ultimately have "\<exists>st. read_lines (\<lambda>p c. readFile k e True p c) (text_matches e) None inc
      (split_on (CHR 0x0A) tx) 0 (init_state []) = Done st"
    by (intro read_lines_returns)
  then obtain st where "readText k e inc tx [] = Done st"
    unfolding readText_def by blast
  then show "\<exists>t con. fromText k e tx (default_props\<lparr>props_includes := inc\<rparr>) = Done (t, con)"
    by (simp add: fromText_root)
qed

text \<open>
  The theorem of C1 with include resolution on, at a text that includes a file of one
  comment inside a section, and has an opening line without a tag name.
\<close>

theorem round_trip_quiet_includes_witness:
  "\<exists>t con s t' con'.
     fromText 1 note_env note_text default_props = Done (t, con) \<and> dump t 0 = Inr s
     \<and> fromText 1 note_env s default_props = Done (t', con') \<and> skel_of t' = skel_of t
     \<and> skel_of t = [SSec ''VirtualHost'' ''*:80''
                      [SDir ''Include'' ''note.conf'', SDir ''ServerName'' ''example.com'']]
     \<and> length (content t) = 2"
proof -
  have p: "default_props\<lparr>props_includes := True\<rparr> = default_props"
    by (simp add: default_props_def)
  have "case fromText 1 note_env note_text default_props of
          Done (t, con) \<Rightarrow>
            slash_free t \<and> include_args t = [''note.conf'']
            \<and> skel_of t = [SSec ''VirtualHost'' ''*:80''
                      [SDir ''Include'' ''note.conf'', SDir ''ServerName'' ''example.com'']]
            \<and> length (content t) = 2
        | _ \<Rightarrow> False"
    by code_simp
  then obtain t con where t: "fromText 1 note_env note_text default_props = Done (t, con)"
    and sf: "slash_free t" and ia: "include_args t = [''note.conf'']"
    and sk: "skel_of t = [SSec ''VirtualHost'' ''*:80''
                      [SDir ''Include'' ''note.conf'', SDir ''ServerName'' ''example.com'']]"
    and len: "length (content t) = 2"
    by (cases "fromText 1 note_env note_text default_props") auto
  have hl: "holds_lines note_env"
    by (auto simp: holds_lines_def note_env_def note_files_def split: if_splits)
  have m: "text_matches note_env ''note.conf'' = Inr [''note.conf'']" by code_simp
  have qr: "quiet_read (readFile 1 note_env True) ''note.conf''"
    unfolding quiet_read_def
  proof
    fix con
    let ?lns = "[''# a note'', []]"
    have rs: "read_stream note_env ''note.conf'' = Inr ?lns" by code_simp
    have rf: "readFile 1 note_env True ''note.conf'' con
        = read_lines (\<lambda>p c. readFile 0 note_env True p c) (file_matches note_env ''note.conf'')
            (Some ''note.conf'') True ?lns 0 (init_state con)"
      by (simp only: One_nat_def readFile.simps(2) rs sum.case)
    have tr: "trim ''# a note'' = ''# a note''" by code_simp
    have ni: "\<not> is_include (node_of_line (Some ''note.conf'') j ''# a note'')" for j
      by (rule not_include_hd) (simp_all add: tr)
    have noinc: "\<forall>ln\<in>set ?lns. \<forall>j. True \<and> trim ln \<noteq> []
          \<and> is_include (node_of_line (Some ''note.conf'') j (trim ln))
        \<longrightarrow> quiet_args (\<lambda>p c. readFile 0 note_env True p c) (file_matches note_env ''note.conf'')
              (args (fields_of (node_of_line (Some ''note.conf'') j (trim ln))))"
      using ni by (simp add: tr)
    have "tidy (init_state con)" by (simp add: tidy_def init_state_def)
    from read_lines_sim[OF noinc sim_refl[OF this], of 0] obtain st' where
      st': "read_lines (\<lambda>p c. readFile 0 note_env True p c) (file_matches note_env ''note.conf'')
              (Some ''note.conf'') True ?lns 0 (init_state con) = Done st'"
      "sim st' (steps (Some ''note.conf'') ?lns 0 (init_state con))" by blast
    have ic: "init_state con = (init_state [])\<lparr>console := con\<rparr>" by (simp add: init_state_def)
    have ev: "skels (root_content (steps (Some ''note.conf'') ?lns 0 (init_state []))) = []"
      by code_simp
    have "skels (root_content st') = []"
      using sim_root_content[OF st'(2)] unfolding ic steps_console root_content_console ev .
    then show "case readFile 1 note_env True ''note.conf'' con of
                 OutOfFuel \<Rightarrow> False | Threw err c \<Rightarrow> True
               | Done sub \<Rightarrow> skels (root_content sub) = []"
      unfolding rf st'(1) by simp
  qed
  have qa: "\<forall>a\<in>set (include_args t). quiet_args (readFile 1 note_env True) (text_matches note_env) a"
    unfolding ia using m qr by (simp add: quiet_args_def)
  from round_trip_quiet_includes[of 1 note_env note_text True] have
    "\<forall>t con. fromText 1 note_env note_text default_props = Done (t, con)
        \<and> slash_free t
        \<and> (True \<longrightarrow> holds_lines note_env
               \<and> (\<forall>a\<in>set (include_args t).
                      quiet_args (readFile 1 note_env True) (text_matches note_env) a))
      \<longrightarrow> (\<exists>s t' con'. dump t 0 = Inr s
             \<and> fromText 1 note_env s default_props = Done (t', con')
             \<and> skel_of t' = skel_of t)"
    unfolding p by blast
  from this[rule_format, of t con] t sf hl qa obtain s t' con' where
    r: "dump t 0 = Inr s" "fromText 1 note_env s default_props = Done (t', con')"
       "skel_of t' = skel_of t" by blast
  show ?thesis
    by (rule exI[of _ t], rule exI[of _ con], rule exI[of _ s], rule exI[of _ t'],
        rule exI[of _ con'], intro conjI) (rule t r sk len)+
qed

text \<open>
  Claim C1 as stated fails. With include resolution on, as it is by default, the dump
  of a tree holds both the Include line and the nodes that it spliced in, and reading
  it includes the file once more. And an opening line whose first tag name begins with
  a slash gives a section that \<^verbatim>\<open>dump\<close> indents by \<open>depth - 1\<close>: at depth 0 this is
  a negative count, and \<^verbatim>\<open>dump\<close> throws; inside a section its opening line is
  printed as a close line, and the tree read from the dump has lost the section.
\<close>

theorem round_trip_counterexample:
  "(case fromText 1 example_env ''Include extra.conf'' default_props of
      Done (t, con) \<Rightarrow>
        (case dump t 0 of
           Inr s \<Rightarrow>
             (case fromText 1 example_env s default_props of
                Done (t', con') \<Rightarrow>
                  skel_of t = [SDir ''Include'' ''extra.conf'', SDir ''Listen'' ''80'']
                  \<and> skel_of t' = [SDir ''Include'' ''extra.conf'', SDir ''Listen'' ''80'',
                                   SDir ''Listen'' ''80'']
              | _ \<Rightarrow> False)
         | Inl err \<Rightarrow> False)
    | _ \<Rightarrow> False)
   \<and> (case fromText 0 example_env ''< </B>'' no_includes of
        Done (t, con) \<Rightarrow> dump t 0 = Inl RangeError
      | _ \<Rightarrow> False)
   \<and> (case fromText 0 example_env (''<A>'' @ [CHR 0x0A] @ ''< </B>'') no_includes of
        Done (t, con) \<Rightarrow>
          (case dump t 0 of
             Inr s \<Rightarrow>
               (case fromText 0 example_env s no_includes of
                  Done (t', con') \<Rightarrow>
                    skel_of t = [SSec ''A'' [] [SSec ''/B'' [] []]]
                    \<and> skel_of t' = [SSec ''A'' [] []]
                | _ \<Rightarrow> False)
           | Inl err \<Rightarrow> False)
      | _ \<Rightarrow> False)"
  by code_simp

end
